theory Spec2Isabelle
  imports Main
begin

section \<open>The fragment of Python's standard library the scheduler uses\<close>

text \<open>
  The reminder engine of \<^verbatim>\<open>main.py\<close> calls \<^verbatim>\<open>datetime.strptime\<close>, \<^verbatim>\<open>strftime\<close>,
  \<^verbatim>\<open>timedelta\<close>, \<^verbatim>\<open>datetime + timedelta\<close> and \<^verbatim>\<open>datetime.replace\<close>. They are modelled
  after CPython's \<^verbatim>\<open>datetime\<close> module, with the names of its helper functions. Every
  exception is a value: a computation returns \<open>Inl e\<close> where Python raises \<open>e\<close>.
  Microseconds are left out: the format \<^verbatim>\<open>%Y-%m-%d %H:%M:%S\<close> neither reads nor writes
  them, and every interval is an integer number of units.
\<close>

datatype py_error = ValueError | OverflowError | TypeError | OperationalError

record datetime =
  year :: int
  month :: int
  day :: int
  hour :: int
  minute :: int
  second :: int

definition MINYEAR :: int where "MINYEAR = 1"
definition MAXYEAR :: int where "MAXYEAR = 9999"
definition MAXORDINAL :: int where "MAXORDINAL = 3652059"

text \<open>\<^verbatim>\<open>_DAYS_IN_MONTH\<close> and \<^verbatim>\<open>_DAYS_BEFORE_MONTH\<close>, indexed by the month 1..12
  (index 0 is the placeholder -1).\<close>

definition DAYS_IN_MONTH :: "int list" where
  "DAYS_IN_MONTH = [-1, 31, 28, 31, 30, 31, 30, 31, 31, 30, 31, 30, 31]"

definition DAYS_BEFORE_MONTH :: "int list" where
  "DAYS_BEFORE_MONTH = [-1, 0, 31, 59, 90, 120, 151, 181, 212, 243, 273, 304, 334]"

fun is_leap :: "int \<Rightarrow> bool" where
  "is_leap y = (if y mod 4 = 0 then (if y mod 100 = 0 then y mod 400 = 0 else True) else False)"

fun days_before_year :: "int \<Rightarrow> int" where
  "days_before_year y = (y - 1) * 365 + (y - 1) div 4 - (y - 1) div 100 + (y - 1) div 400"

fun days_in_month :: "int \<Rightarrow> int \<Rightarrow> int" where
  "days_in_month y m = (if m = 2 \<and> is_leap y then 29 else DAYS_IN_MONTH ! nat m)"

fun days_before_month :: "int \<Rightarrow> int \<Rightarrow> int" where
  "days_before_month y m = DAYS_BEFORE_MONTH ! nat m + (if m > 2 \<and> is_leap y then 1 else 0)"

fun ymd2ord :: "int \<Rightarrow> int \<Rightarrow> int \<Rightarrow> int" where
  "ymd2ord y m d = days_before_year y + days_before_month y m + d"

declare is_leap.simps [simp del] days_before_year.simps [simp del] days_in_month.simps [simp del]
  days_before_month.simps [simp del] ymd2ord.simps [simp del]

definition DI400Y :: int where "DI400Y = 146097"
definition DI100Y :: int where "DI100Y = 36524"
definition DI4Y :: int where "DI4Y = 1461"

text \<open>\<^verbatim>\<open>_ord2ymd\<close>: ordinal to (year, month, day), 0001-01-01 being day 1.\<close>

definition ord2ymd :: "int \<Rightarrow> int \<times> int \<times> int" where
  "ord2ymd n0 =
     (let n = n0 - 1;
          n400 = n div DI400Y; n = n mod DI400Y;
          y = n400 * 400 + 1;
          n100 = n div DI100Y; n = n mod DI100Y;
          n4 = n div DI4Y; n = n mod DI4Y;
          n1 = n div 365; n = n mod 365;
          y = y + n100 * 100 + n4 * 4 + n1
      in if n1 = 4 \<or> n100 = 4 then (y - 1, 12, 31)
         else
           let leapyear = (n1 = 3 \<and> (n4 \<noteq> 24 \<or> n100 = 3));
               m = (n + 50) div 32;
               preceding = DAYS_BEFORE_MONTH ! nat m + (if m > 2 \<and> leapyear then 1 else 0)
           in if preceding > n
              then let m' = m - 1;
                       preceding' = preceding
                         - (DAYS_IN_MONTH ! nat m' + (if m' = 2 \<and> leapyear then 1 else 0))
                   in (y, m', n - preceding' + 1)
              else (y, m, n - preceding + 1))"

text \<open>The constructor's range checks (\<^verbatim>\<open>_check_date_fields\<close>, \<^verbatim>\<open>_check_time_fields\<close>).\<close>

definition check_date_fields :: "int \<Rightarrow> int \<Rightarrow> int \<Rightarrow> bool" where
  "check_date_fields y m d =
     (if MINYEAR \<le> y \<and> y \<le> MAXYEAR
      then if 1 \<le> m \<and> m \<le> 12 then 1 \<le> d \<and> d \<le> days_in_month y m else False
      else False)"

definition check_time_fields :: "int \<Rightarrow> int \<Rightarrow> int \<Rightarrow> bool" where
  "check_time_fields h mi s = (0 \<le> h \<and> h \<le> 23 \<and> 0 \<le> mi \<and> mi \<le> 59 \<and> 0 \<le> s \<and> s \<le> 59)"

definition mk_datetime :: "int \<Rightarrow> int \<Rightarrow> int \<Rightarrow> int \<Rightarrow> int \<Rightarrow> int \<Rightarrow> py_error + datetime" where
  "mk_datetime y m d h mi s =
     (if check_date_fields y m d \<and> check_time_fields h mi s
      then Inr \<lparr>year = y, month = m, day = d, hour = h, minute = mi, second = s\<rparr>
      else Inl ValueError)"

text \<open>What every \<^verbatim>\<open>datetime\<close> object satisfies.\<close>

definition valid_datetime :: "datetime \<Rightarrow> bool" where
  "valid_datetime t =
     (check_date_fields (year t) (month t) (day t) \<and> check_time_fields (hour t) (minute t) (second t))"


subsection \<open>timedelta and addition\<close>

record timedelta =
  days :: int
  seconds :: int

text \<open>\<^verbatim>\<open>timedelta(days, seconds, minutes=, hours=, weeks=)\<close> on integers: the seconds are
  normalised into \<open>0 \<le> seconds < 86400\<close>, and more than 999999999 days overflow.\<close>

definition mk_timedelta :: "int \<Rightarrow> int \<Rightarrow> int \<Rightarrow> int \<Rightarrow> int \<Rightarrow> py_error + timedelta" where
  "mk_timedelta d s mi h w =
     (let d1 = d + w * 7;
          s1 = s + mi * 60 + h * 3600;
          d2 = d1 + s1 div 86400;
          s2 = s1 mod 86400
      in if abs d2 > 999999999 then Inl OverflowError
         else Inr \<lparr>days = d2, seconds = s2\<rparr>)"

definition toordinal :: "datetime \<Rightarrow> int" where
  "toordinal t = ymd2ord (year t) (month t) (day t)"

text \<open>\<^verbatim>\<open>datetime.__add__\<close>: the sum is formed as a timedelta counted from day 0 and turned
  back into a date; a day outside \<open>1..MAXORDINAL\<close> raises OverflowError.\<close>

definition dt_add :: "datetime \<Rightarrow> timedelta \<Rightarrow> py_error + datetime" where
  "dt_add t other =
     (case mk_timedelta (toordinal t + days other) (second t + seconds other) (minute t) (hour t) 0 of
        Inl e \<Rightarrow> Inl e
      | Inr delta \<Rightarrow>
          let h = seconds delta div 3600; rem = seconds delta mod 3600;
              mi = rem div 60; s = rem mod 60
          in if 0 < days delta \<and> days delta \<le> MAXORDINAL
             then (case ord2ymd (days delta) of
                     (y, m, d) \<Rightarrow> Inr \<lparr>year = y, month = m, day = d, hour = h, minute = mi, second = s\<rparr>)
             else Inl OverflowError)"

text \<open>\<^verbatim>\<open>t.replace(year=y, month=m)\<close> builds a new datetime from the other fields of \<open>t\<close>
  and runs the constructor's checks. CPython converts the arguments to C ints first, so a
  year beyond 32 bits is an OverflowError before the range check.\<close>

definition C_INT_MAX :: int where "C_INT_MAX = 2147483647"

definition replace_year_month :: "datetime \<Rightarrow> int \<Rightarrow> int \<Rightarrow> py_error + datetime" where
  "replace_year_month t y m =
     (if y > C_INT_MAX \<or> y < - C_INT_MAX - 1 \<or> m > C_INT_MAX \<or> m < - C_INT_MAX - 1
      then Inl OverflowError
      else mk_datetime y m (day t) (hour t) (minute t) (second t))"

subsection \<open>The format \<^verbatim>\<open>%Y-%m-%d %H:%M:%S\<close>\<close>

text \<open>\<^verbatim>\<open>strftime\<close> writes the year with four digits and every other field with two.\<close>

definition digit_char :: "int \<Rightarrow> char" where
  "digit_char d = ''0123456789'' ! nat d"

definition pad2 :: "int \<Rightarrow> string" where
  "pad2 n = [digit_char (n div 10 mod 10), digit_char (n mod 10)]"

definition pad4 :: "int \<Rightarrow> string" where
  "pad4 n = [digit_char (n div 1000 mod 10), digit_char (n div 100 mod 10),
             digit_char (n div 10 mod 10), digit_char (n mod 10)]"

definition strftime :: "datetime \<Rightarrow> string" where
  "strftime t = pad4 (year t) @ ''-'' @ pad2 (month t) @ ''-'' @ pad2 (day t) @ '' '' @
                pad2 (hour t) @ '':'' @ pad2 (minute t) @ '':'' @ pad2 (second t)"

text \<open>
  \<^verbatim>\<open>strptime\<close> matches the text against the pattern that \<^verbatim>\<open>_strptime\<close> builds for the
  format (on ASCII text):
  \<^verbatim>\<open>\d\d\d\d - (1[0-2]|0[1-9]|[1-9]) - (3[0-1]|[1-2]\d|0[1-9]|[1-9]| [1-9]) \s+
  (2[0-3]|[0-1]\d|\d) : ([0-5]\d|\d) : (6[0-1]|[0-5]\d|\d)\<close>
  and then calls the constructor. No match, text left over and a field out of range are
  all ValueError.
\<close>

definition digit_val :: "char \<Rightarrow> int option" where
  "digit_val c = map_of [(CHR ''0'', 0), (CHR ''1'', 1), (CHR ''2'', 2), (CHR ''3'', 3),
     (CHR ''4'', 4), (CHR ''5'', 5), (CHR ''6'', 6), (CHR ''7'', 7), (CHR ''8'', 8),
     (CHR ''9'', 9)] c"

text \<open>A field with two-character alternatives tried before a one-character one.\<close>

fun re_field :: "(int \<Rightarrow> int \<Rightarrow> bool) \<Rightarrow> (int \<Rightarrow> bool) \<Rightarrow> string \<Rightarrow> (int \<times> string) option" where
  "re_field two one [] = None"
| "re_field two one [a] =
     (case digit_val a of
        Some x \<Rightarrow> if one x then Some (x, []) else None
      | None \<Rightarrow> None)"
| "re_field two one (a # b # rest) =
     (case digit_val a of
        None \<Rightarrow> None
      | Some x \<Rightarrow>
          (case digit_val b of
             Some y \<Rightarrow> if two x y then Some (10 * x + y, rest)
                       else if one x then Some (x, b # rest) else None
           | None \<Rightarrow> if one x then Some (x, b # rest) else None))"

fun re_Y :: "string \<Rightarrow> (int \<times> string) option" where
  "re_Y (a # b # c # d # rest) =
     (case (digit_val a, digit_val b, digit_val c, digit_val d) of
        (Some w, Some x, Some y, Some z) \<Rightarrow> Some (1000 * w + 100 * x + 10 * y + z, rest)
      | _ \<Rightarrow> None)"
| "re_Y _ = None"

definition re_m :: "string \<Rightarrow> (int \<times> string) option" where
  "re_m = re_field (\<lambda>x y. (x = 1 \<and> y \<le> 2) \<or> (x = 0 \<and> 1 \<le> y)) (\<lambda>x. 1 \<le> x)"

definition re_d :: "string \<Rightarrow> (int \<times> string) option" where
  "re_d s =
     (case re_field (\<lambda>x y. (x = 3 \<and> y \<le> 1) \<or> x = 1 \<or> x = 2 \<or> (x = 0 \<and> 1 \<le> y)) (\<lambda>x. 1 \<le> x) s of
        Some r \<Rightarrow> Some r
      | None \<Rightarrow>
          (case s of
             a # b # rest \<Rightarrow>
               (case digit_val b of
                  Some y \<Rightarrow> if a = CHR '' '' \<and> 1 \<le> y then Some (y, rest) else None
                | None \<Rightarrow> None)
           | _ \<Rightarrow> None))"

definition re_H :: "string \<Rightarrow> (int \<times> string) option" where
  "re_H = re_field (\<lambda>x y. (x = 2 \<and> y \<le> 3) \<or> x \<le> 1) (\<lambda>x. True)"

definition re_M :: "string \<Rightarrow> (int \<times> string) option" where
  "re_M = re_field (\<lambda>x y. x \<le> 5) (\<lambda>x. True)"

definition re_S :: "string \<Rightarrow> (int \<times> string) option" where
  "re_S = re_field (\<lambda>x y. (x = 6 \<and> y \<le> 1) \<or> x \<le> 5) (\<lambda>x. True)"

fun re_lit :: "char \<Rightarrow> string \<Rightarrow> string option" where
  "re_lit c [] = None"
| "re_lit c (a # rest) = (if a = c then Some rest else None)"

definition is_space :: "char \<Rightarrow> bool" where
  "is_space c = (let k = (of_char c :: nat) in (9 \<le> k \<and> k \<le> 13) \<or> (28 \<le> k \<and> k \<le> 32))"

fun re_spaces :: "string \<Rightarrow> string option" where
  "re_spaces [] = None"
| "re_spaces (a # rest) = (if is_space a then Some (dropWhile is_space rest) else None)"

definition strptime_match :: "string \<Rightarrow> (int \<times> int \<times> int \<times> int \<times> int \<times> int) option" where
  "strptime_match s =
     Option.bind (re_Y s) (\<lambda>(y, s1).
     Option.bind (re_lit CHR ''-'' s1) (\<lambda>s2.
     Option.bind (re_m s2) (\<lambda>(m, s3).
     Option.bind (re_lit CHR ''-'' s3) (\<lambda>s4.
     Option.bind (re_d s4) (\<lambda>(d, s5).
     Option.bind (re_spaces s5) (\<lambda>s6.
     Option.bind (re_H s6) (\<lambda>(h, s7).
     Option.bind (re_lit CHR '':'' s7) (\<lambda>s8.
     Option.bind (re_M s8) (\<lambda>(mi, s9).
     Option.bind (re_lit CHR '':'' s9) (\<lambda>s10.
     Option.bind (re_S s10) (\<lambda>(sec, s11).
     if s11 = [] then Some (y, m, d, h, mi, sec) else None)))))))))))"

definition strptime :: "string \<Rightarrow> py_error + datetime" where
  "strptime s =
     (case strptime_match s of
        None \<Rightarrow> Inl ValueError
      | Some (y, m, d, h, mi, sec) \<Rightarrow> mk_datetime y m d h mi sec)"

text \<open>SQLite compares TEXT values byte by byte, a proper prefix being smaller.\<close>

fun sql_text_le :: "string \<Rightarrow> string \<Rightarrow> bool" where
  "sql_text_le [] ys = True"
| "sql_text_le (x # xs) [] = False"
| "sql_text_le (x # xs) (y # ys) =
     (if x = y then sql_text_le xs ys else (of_char x :: nat) < of_char y)"

section \<open>The reminders table and the application state\<close>

text \<open>A row of table \<^verbatim>\<open>reminders\<close>, as \<^verbatim>\<open>SELECT *\<close> returns it: the tuple
  \<^verbatim>\<open>(id, message, remind_time, is_recurring, recurring_interval, recurring_unit,
  is_completed, created_at)\<close>. The two nullable columns are options.\<close>

record reminder =
  rid :: int
  message :: string
  remind_time :: string
  is_recurring :: int
  recurring_interval :: "int option"
  recurring_unit :: "string option"
  is_completed :: int
  created_at :: string

text \<open>The statements the scheduler sends to SQLite. Each of them can raise
  \<^verbatim>\<open>sqlite3.OperationalError\<close> (a locked or unreadable database); which ones do in a
  given cycle is an input of the model.\<close>

datatype stmt =
    Connect
  | Select_due
  | Update_remind_time int
  | Update_completed int
  | Commit int

type_synonym faults = "stmt \<Rightarrow> bool"

datatype ui_event = Show_reminder reminder | Load_reminders

text \<open>The state the two actors share: the committed content of \<^verbatim>\<open>taskmanager.db\<close>, the
  queue, the stop flag, and what has been printed, slept and shown so far.\<close>

record app =
  db :: "reminder list"
  reminder_queue :: "reminder list"
  reminder_active :: bool
  printed :: "py_error list"
  sleeps :: "nat list"
  ui :: "ui_event list"

text \<open>The scheduler's connection during one cycle: \<open>txn\<close> is what its cursor sees (the
  file plus its own uncommitted updates), \<open>committed\<close> is the content of the file.\<close>

record work =
  committed :: "reminder list"
  txn :: "reminder list"
  pushed :: "reminder list"

section \<open>The scheduler\<close>

text \<open>\<^verbatim>\<open>SELECT * FROM reminders WHERE is_completed = 0 AND remind_time <= ?\<close>\<close>

definition select_due :: "reminder list \<Rightarrow> string \<Rightarrow> reminder list" where
  "select_due rows now = filter (\<lambda>r. is_completed r = 0 \<and> sql_text_le (remind_time r) now) rows"

text \<open>\<^verbatim>\<open>UPDATE reminders SET remind_time = ? WHERE id = ?\<close> and
  \<^verbatim>\<open>UPDATE reminders SET is_completed = 1 WHERE id = ?\<close>\<close>

definition update_remind_time :: "string \<Rightarrow> int \<Rightarrow> reminder list \<Rightarrow> reminder list" where
  "update_remind_time t i rows = map (\<lambda>r. if rid r = i then r\<lparr>remind_time := t\<rparr> else r) rows"

definition update_completed :: "int \<Rightarrow> reminder list \<Rightarrow> reminder list" where
  "update_completed i rows = map (\<lambda>r. if rid r = i then r\<lparr>is_completed := 1\<rparr> else r) rows"

text \<open>The \<^verbatim>\<open>if/elif\<close> chain of \<^verbatim>\<open>update_recurring_reminder\<close> that computes \<^verbatim>\<open>new_time\<close>.
  \<open>Inr None\<close> is the final \<^verbatim>\<open>else: return\<close>. A NULL interval is \<^verbatim>\<open>None\<close> in Python, and
  arithmetic on it raises TypeError.\<close>

definition add_units :: "datetime \<Rightarrow> py_error + timedelta \<Rightarrow> py_error + datetime option" where
  "add_units t td =
     (case td of
        Inl e \<Rightarrow> Inl e
      | Inr delta \<Rightarrow> (case dt_add t delta of Inl e \<Rightarrow> Inl e | Inr t' \<Rightarrow> Inr (Some t')))"

definition new_time :: "datetime \<Rightarrow> int option \<Rightarrow> string option \<Rightarrow> py_error + datetime option" where
  "new_time t interval unit =
     (if unit = Some ''minutes'' then
        (case interval of None \<Rightarrow> Inl TypeError
         | Some n \<Rightarrow> add_units t (mk_timedelta 0 0 n 0 0))
      else if unit = Some ''hours'' then
        (case interval of None \<Rightarrow> Inl TypeError
         | Some n \<Rightarrow> add_units t (mk_timedelta 0 0 0 n 0))
      else if unit = Some ''days'' then
        (case interval of None \<Rightarrow> Inl TypeError
         | Some n \<Rightarrow> add_units t (mk_timedelta n 0 0 0 0))
      else if unit = Some ''weeks'' then
        (case interval of None \<Rightarrow> Inl TypeError
         | Some n \<Rightarrow> add_units t (mk_timedelta 0 0 0 0 n))
      else if unit = Some ''months'' then
        (case interval of None \<Rightarrow> Inl TypeError
         | Some n \<Rightarrow>
             (case replace_year_month t (year t + (month t + n - 1) div 12)
                     ((month t + n - 1) mod 12 + 1) of
                Inl e \<Rightarrow> Inl e
              | Inr t' \<Rightarrow> Inr (Some t')))
      else Inr None)"

text \<open>The two arguments that the \<^verbatim>\<open>months\<close> branch passes to \<^verbatim>\<open>replace\<close>.\<close>

definition target_year :: "datetime \<Rightarrow> int \<Rightarrow> int" where
  "target_year t n = year t + (month t + n - 1) div 12"

definition target_month :: "datetime \<Rightarrow> int \<Rightarrow> int" where
  "target_month t n = (month t + n - 1) mod 12 + 1"

text \<open>The month step in the words of the specification: with \<open>m0 = base.month - 1\<close>,
  \<open>y0 = base.year\<close> and \<open>total = m0 + interval\<close>, the month is \<open>total mod 12\<close> (made
  1-based again) and the year is \<open>y0 + total div 12\<close>; the other fields are kept.\<close>

definition next_month_spec :: "datetime \<Rightarrow> int \<Rightarrow> datetime" where
  "next_month_spec base interval =
     (let m0 = month base - 1;
          y0 = year base;
          total = m0 + interval;
          new_month = total mod 12;
          new_year = y0 + total div 12
      in base\<lparr>year := new_year, month := new_month + 1\<rparr>)"

text \<open>\<^verbatim>\<open>update_recurring_reminder(cursor, reminder)\<close>: the effect is on the cursor's
  transaction only; nothing here commits.\<close>

definition update_recurring_reminder :: "faults \<Rightarrow> reminder list \<Rightarrow> reminder \<Rightarrow> py_error + reminder list" where
  "update_recurring_reminder f cursor r =
     (case strptime (remind_time r) of
        Inl e \<Rightarrow> Inl e
      | Inr t \<Rightarrow>
          (case new_time t (recurring_interval r) (recurring_unit r) of
             Inl e \<Rightarrow> Inl e
           | Inr None \<Rightarrow> Inr cursor
           | Inr (Some t') \<Rightarrow>
               if f (Update_remind_time (rid r)) then Inl OperationalError
               else Inr (update_remind_time (strftime t') (rid r) cursor)))"

text \<open>The body of \<^verbatim>\<open>for reminder in reminders\<close>: the row is put on the queue, then a
  recurring reminder is re-armed and a one-shot one is marked completed and committed.
  \<open>Inl (e, w)\<close> carries the state reached when \<open>e\<close> was raised.\<close>

definition for_body :: "faults \<Rightarrow> reminder \<Rightarrow> work \<Rightarrow> (py_error \<times> work) + work" where
  "for_body f r w =
     (let w1 = w\<lparr>pushed := pushed w @ [r]\<rparr> in
      if is_recurring r \<noteq> 0 then
        (case update_recurring_reminder f (txn w1) r of
           Inl e \<Rightarrow> Inl (e, w1)
         | Inr c \<Rightarrow> Inr (w1\<lparr>txn := c\<rparr>))
      else if f (Update_completed (rid r)) then Inl (OperationalError, w1)
      else
        let w2 = w1\<lparr>txn := update_completed (rid r) (txn w1)\<rparr> in
        if f (Commit (rid r)) then Inl (OperationalError, w2)
        else Inr (w2\<lparr>committed := txn w2\<rparr>))"

text \<open>The loop: an exception leaves it at once.\<close>

fun for_reminders :: "faults \<Rightarrow> reminder list \<Rightarrow> work \<Rightarrow> (py_error \<times> work) + work" where
  "for_reminders f [] w = Inr w"
| "for_reminders f (r # rs) w =
     (case for_body f r w of
        Inl x \<Rightarrow> Inl x
      | Inr w1 \<Rightarrow> for_reminders f rs w1)"

text \<open>The state a run of the loop ends in, with or without exception.\<close>

definition final :: "(py_error \<times> work) + work \<Rightarrow> work" where
  "final res = (case res of Inl (e, w) \<Rightarrow> w | Inr w \<Rightarrow> w)"

text \<open>One pass of the body of \<^verbatim>\<open>while self.reminder_active\<close> in \<^verbatim>\<open>check_reminders\<close>, at the
  clock reading \<open>now\<close>. The connection is closed (or dropped by the exception) without a
  commit of its own, so only \<open>committed\<close> survives the cycle. The handler prints the exception
  and sleeps 10 seconds; a cycle without exception sleeps 60.\<close>

definition except_handler :: "py_error \<Rightarrow> app \<Rightarrow> app" where
  "except_handler e st = st\<lparr>printed := printed st @ [e], sleeps := sleeps st @ [10]\<rparr>"

definition connect :: "app \<Rightarrow> work" where
  "connect st = \<lparr>committed = db st, txn = db st, pushed = reminder_queue st\<rparr>"

definition check_reminders_cycle :: "faults \<Rightarrow> datetime \<Rightarrow> app \<Rightarrow> app" where
  "check_reminders_cycle f now st =
     (if f Connect then except_handler OperationalError st
      else if f Select_due then except_handler OperationalError st
      else
        (case for_reminders f (select_due (db st) (strftime now)) (connect st) of
           Inl (e, w) \<Rightarrow> except_handler e (st\<lparr>db := committed w, reminder_queue := pushed w\<rparr>)
         | Inr w \<Rightarrow> st\<lparr>db := committed w, reminder_queue := pushed w, sleeps := sleeps st @ [60]\<rparr>))"

text \<open>\<^verbatim>\<open>check_reminders\<close>: the loop, run on a finite prefix of its inputs (the faults and
  the clock reading of each cycle). The flag is tested before each cycle.\<close>

fun check_reminders :: "(faults \<times> datetime) list \<Rightarrow> app \<Rightarrow> app" where
  "check_reminders [] st = st"
| "check_reminders ((f, now) # es) st =
     (if reminder_active st then check_reminders es (check_reminders_cycle f now st) else st)"

section \<open>The consumer\<close>

text \<open>\<^verbatim>\<open>process_reminder_queue\<close>: while the queue is not empty, take the first reminder,
  show it and reload the list.\<close>

function process_reminder_queue :: "app \<Rightarrow> app" where
  "process_reminder_queue st =
     (case reminder_queue st of
        [] \<Rightarrow> st
      | r # q \<Rightarrow> process_reminder_queue
                  (st\<lparr>reminder_queue := q, ui := ui st @ [Show_reminder r, Load_reminders]\<rparr>))"
  by pat_completeness auto
termination
  by (relation "measure (\<lambda>st. length (reminder_queue st))") auto

declare process_reminder_queue.simps [simp del]

section \<open>Example data\<close>

text \<open>Rows and inputs used to run the model: two one-shot reminders, a daily one, a
  monthly one set on 31 January, and a recurring one whose unit is none of the five the
  code knows. The tables below list their rows by ascending id, the order in which the
  SELECT (a scan of the table, with no ORDER BY) returns them. The clock reads
  2024-03-10 09:00:00.\<close>

definition rem_oneshot :: reminder where
  "rem_oneshot = \<lparr>rid = 1, message = ''call the bank'', remind_time = ''2024-03-10 08:59:59'',
     is_recurring = 0, recurring_interval = None, recurring_unit = None,
     is_completed = 0, created_at = ''2024-03-01 12:00:00''\<rparr>"

definition rem_daily :: reminder where
  "rem_daily = \<lparr>rid = 2, message = ''stand-up'', remind_time = ''2024-03-10 08:59:59'',
     is_recurring = 1, recurring_interval = Some 1, recurring_unit = Some ''days'',
     is_completed = 0, created_at = ''2024-03-01 12:00:00''\<rparr>"

definition rem_oneshot_late :: reminder where
  "rem_oneshot_late = \<lparr>rid = 5, message = ''water the plants'', remind_time = ''2024-03-10 08:30:00'',
     is_recurring = 0, recurring_interval = None, recurring_unit = None,
     is_completed = 0, created_at = ''2024-03-02 12:00:00''\<rparr>"

definition rem_monthly :: reminder where
  "rem_monthly = \<lparr>rid = 3, message = ''pay the rent'', remind_time = ''2024-01-31 09:00:00'',
     is_recurring = 1, recurring_interval = Some 1, recurring_unit = Some ''months'',
     is_completed = 0, created_at = ''2024-01-01 12:00:00''\<rparr>"

definition rem_yearly :: reminder where
  "rem_yearly = \<lparr>rid = 4, message = ''renew the licence'', remind_time = ''2024-03-10 08:59:59'',
     is_recurring = 1, recurring_interval = Some 1, recurring_unit = Some ''years'',
     is_completed = 0, created_at = ''2024-03-01 12:00:00''\<rparr>"

definition clock :: datetime where
  "clock = \<lparr>year = 2024, month = 3, day = 10, hour = 9, minute = 0, second = 0\<rparr>"

definition end_of_january :: datetime where
  "end_of_january = \<lparr>year = 2024, month = 1, day = 31, hour = 9, minute = 0, second = 0\<rparr>"

definition end_of_november :: datetime where
  "end_of_november = \<lparr>year = 2024, month = 11, day = 30, hour = 9, minute = 0, second = 0\<rparr>"

definition end_of_calendar :: datetime where
  "end_of_calendar = \<lparr>year = 9999, month = 12, day = 15, hour = 10, minute = 0, second = 0\<rparr>"

definition clock_next :: datetime where
  "clock_next = \<lparr>year = 2024, month = 3, day = 10, hour = 9, minute = 1, second = 0\<rparr>"

definition no_faults :: faults where
  "no_faults = (\<lambda>s. False)"

text \<open>The database is locked when the completion of reminder 1 is written.\<close>

definition locked_on_completion :: faults where
  "locked_on_completion = (\<lambda>s. s = Update_completed 1)"

definition app_with :: "reminder list \<Rightarrow> app" where
  "app_with rows = \<lparr>db = rows, reminder_queue = [], reminder_active = True,
     printed = [], sleeps = [], ui = []\<rparr>"

section \<open>The consumer on an empty queue\<close>

text \<open>
  C9. If the delivery queue is empty at a consumer tick, the tick performs no work: the
  state the tick returns is the state it started from, so no reminder is shown and no
  reload of the list is made.
\<close>

theorem empty_queue_tick_is_noop:
  "reminder_queue st = [] \<Longrightarrow> process_reminder_queue st = st"
  by (simp add: process_reminder_queue.simps)

theorem empty_queue_tick_is_noop_witness:
  "reminder_queue (app_with [rem_oneshot]) = [] \<and>
   process_reminder_queue (app_with [rem_oneshot]) = app_with [rem_oneshot] \<and>
   ui (process_reminder_queue (app_with [rem_oneshot])) = []"
proof -
  have q: "reminder_queue (app_with [rem_oneshot]) = []"
    by (simp add: app_with_def)
  from empty_queue_tick_is_noop [OF q] q show ?thesis
    by (simp add: app_with_def)
qed

section \<open>Properties of the loop\<close>

lemma final_simps [simp]: "final (Inl (e, w)) = w" "final (Inr w) = w"
  by (simp_all add: final_def)

lemma for_reminders_append:
  "for_reminders f (xs @ ys) w =
     (case for_reminders f xs w of Inl x \<Rightarrow> Inl x | Inr w1 \<Rightarrow> for_reminders f ys w1)"
  by (induction xs arbitrary: w) (auto split: sum.splits)

lemma for_body_pushed: "pushed (final (for_body f r w)) = pushed w @ [r]"
  by (auto simp: for_body_def Let_def split: sum.splits)

lemma for_body_pushed_Inr: "for_body f r w = Inr w' \<Longrightarrow> pushed w' = pushed w @ [r]"
  using for_body_pushed [of f r w] by simp

lemma for_body_pushed_Inl: "for_body f r w = Inl (e, w') \<Longrightarrow> pushed w' = pushed w @ [r]"
  using for_body_pushed [of f r w] by simp

lemma for_reminders_pushed_Inr:
  "for_reminders f rs w = Inr w' \<Longrightarrow> pushed w' = pushed w @ rs"
  by (induction rs arbitrary: w) (auto split: sum.splits dest: for_body_pushed_Inr)

lemma for_reminders_pushed_Inl:
  "for_reminders f rs w = Inl (e, w') \<Longrightarrow> \<exists>k < length rs. pushed w' = pushed w @ take (Suc k) rs"
proof (induction rs arbitrary: w)
  case Nil
  then show ?case by simp
next
  case (Cons r rs)
  show ?case
  proof (cases "for_body f r w")
    case (Inl a)
    with Cons.prems have "for_body f r w = Inl (e, w')" by simp
    then have "pushed w' = pushed w @ [r]" by (rule for_body_pushed_Inl)
    then show ?thesis by (intro exI [of _ 0]) simp
  next
    case (Inr w1)
    with Cons.prems have "for_reminders f rs w1 = Inl (e, w')" by simp
    from Cons.IH [OF this] obtain k where k: "k < length rs" "pushed w' = pushed w1 @ take (Suc k) rs"
      by blast
    moreover from Inr have "pushed w1 = pushed w @ [r]" by (rule for_body_pushed_Inr)
    ultimately show ?thesis by (intro exI [of _ "Suc k"]) simp
  qed
qed

lemma for_reminders_pushed:
  "\<exists>k \<le> length rs. pushed (final (for_reminders f rs w)) = pushed w @ take k rs"
proof (cases "for_reminders f rs w")
  case (Inl a)
  obtain e w' where a: "a = (e, w')" by (cases a)
  from for_reminders_pushed_Inl [of f rs w e w'] Inl a
  obtain k where "k < length rs" "pushed w' = pushed w @ take (Suc k) rs" by auto
  with Inl a show ?thesis by (intro exI [of _ "Suc k"]) simp
next
  case (Inr w')
  with for_reminders_pushed_Inr [of f rs w w'] show ?thesis
    by (intro exI [of _ "length rs"]) simp
qed

lemma update_remind_time_other: "rid x \<noteq> i \<Longrightarrow> x \<in> set rows \<Longrightarrow> x \<in> set (update_remind_time t i rows)"
  by (force simp: update_remind_time_def)

lemma update_completed_other: "rid x \<noteq> i \<Longrightarrow> x \<in> set rows \<Longrightarrow> x \<in> set (update_completed i rows)"
  by (force simp: update_completed_def)

lemma update_recurring_reminder_other:
  "update_recurring_reminder f c r = Inr c' \<Longrightarrow> rid x \<noteq> rid r \<Longrightarrow> x \<in> set c \<Longrightarrow> x \<in> set c'"
  by (auto simp: update_recurring_reminder_def update_remind_time_other split: sum.splits option.splits if_splits)

definition keeps :: "reminder \<Rightarrow> work \<Rightarrow> work \<Rightarrow> bool" where
  "keeps x w w' = ((x \<in> set (txn w) \<longrightarrow> x \<in> set (txn w')) \<and>
     (x \<in> set (txn w) \<and> x \<in> set (committed w) \<longrightarrow> x \<in> set (committed w')))"

lemma for_body_other:
  "rid x \<noteq> rid r \<Longrightarrow> keeps x w (final (for_body f r w))"
  by (auto simp: keeps_def for_body_def Let_def update_completed_other dest: update_recurring_reminder_other split: sum.splits)

lemma keeps_trans: "keeps x a b \<Longrightarrow> keeps x b c \<Longrightarrow> keeps x a c"
  by (auto simp: keeps_def)

lemma for_reminders_other:
  "rid x \<notin> rid ` set rs \<Longrightarrow> keeps x w (final (for_reminders f rs w))"
proof (induction rs arbitrary: w)
  case Nil
  then show ?case by (simp add: keeps_def)
next
  case (Cons r rs)
  then have ne: "rid x \<noteq> rid r" and rest: "rid x \<notin> rid ` set rs" by auto
  show ?case
  proof (cases "for_body f r w")
    case (Inl a)
    with for_body_other [OF ne, of w f] show ?thesis by (cases a) simp
  next
    case (Inr w1)
    with for_body_other [OF ne, of w f] have "keeps x w w1" by simp
    moreover from Cons.IH [OF rest] have "keeps x w1 (final (for_reminders f rs w1))" .
    ultimately show ?thesis using Inr by (simp add: keeps_trans)
  qed
qed


lemma cycle_db:
  "\<not> f Connect \<Longrightarrow> \<not> f Select_due \<Longrightarrow>
   db (check_reminders_cycle f now st) =
     committed (final (for_reminders f (select_due (db st) (strftime now)) (connect st)))"
  by (auto simp: check_reminders_cycle_def except_handler_def split: sum.splits)

lemma cycle_queue:
  "\<not> f Connect \<Longrightarrow> \<not> f Select_due \<Longrightarrow>
   reminder_queue (check_reminders_cycle f now st) =
     pushed (final (for_reminders f (select_due (db st) (strftime now)) (connect st)))"
  by (auto simp: check_reminders_cycle_def except_handler_def split: sum.splits)

lemma cycle_active: "reminder_active (check_reminders_cycle f now st) = reminder_active st"
  by (auto simp: check_reminders_cycle_def except_handler_def split: sum.splits)

lemma cycle_queue_take:
  "\<exists>k \<le> length (select_due (db st) (strftime now)).
     reminder_queue (check_reminders_cycle f now st) =
       reminder_queue st @ take k (select_due (db st) (strftime now))"
proof (cases "f Connect \<or> f Select_due")
  case True
  then have "reminder_queue (check_reminders_cycle f now st) = reminder_queue st"
    by (auto simp: check_reminders_cycle_def except_handler_def)
  then show ?thesis by (intro exI [of _ 0]) simp
next
  case False
  with for_reminders_pushed [of "select_due (db st) (strftime now)" f "connect st"]
  show ?thesis by (simp add: cycle_queue connect_def)
qed

lemma select_due_sound: "r \<in> set (select_due rows now) \<Longrightarrow> r \<in> set rows \<and> is_completed r = 0"
  by (simp add: select_due_def)

lemma recurring_only_commits_nothing:
  "\<forall>r \<in> set rs. is_recurring r \<noteq> 0 \<Longrightarrow> committed (final (for_reminders f rs w)) = committed w"
proof (induction rs arbitrary: w)
  case Nil
  then show ?case by simp
next
  case (Cons r rs)
  then have rec: "is_recurring r \<noteq> 0" by simp
  show ?case
  proof (cases "for_body f r w")
    case (Inl a)
    with rec show ?thesis
      by (cases a) (auto simp: for_body_def Let_def split: sum.splits)
  next
    case (Inr w1)
    with rec have "committed w1 = committed w"
      by (auto simp: for_body_def Let_def split: sum.splits)
    with Cons Inr show ?thesis by simp
  qed
qed

lemma recurring_only_cycle_persists_nothing:
  "\<forall>r \<in> set (select_due (db st) (strftime now)). is_recurring r \<noteq> 0 \<Longrightarrow>
     db (check_reminders_cycle f now st) = db st"
proof (cases "f Connect \<or> f Select_due")
  case True
  then show ?thesis by (auto simp: check_reminders_cycle_def except_handler_def)
next
  case False
  assume "\<forall>r \<in> set (select_due (db st) (strftime now)). is_recurring r \<noteq> 0"
  from recurring_only_commits_nothing [OF this, of f "connect st"] False
  show ?thesis by (simp add: cycle_db connect_def)
qed

section \<open>What the queue receives\<close>

text \<open>
  C8. For every due reminder processed in a cycle, the snapshot put on the delivery queue
  is the row in its state before the cycle changed it. The loop body appends the row it
  was given to the queue before it sends any UPDATE, and the row stays on the queue
  whatever the UPDATE or the commit does afterwards; so what a cycle adds to the queue is
  a prefix of the rows it selected, each of them a row of the table as it stood before the
  cycle, with \<open>is_completed = 0\<close>.
\<close>

theorem queue_holds_rows_as_selected:
  "pushed (final (for_body f r w)) = pushed w @ [r] \<and>
   (\<exists>k \<le> length (select_due (db st) (strftime now)).
      reminder_queue (check_reminders_cycle f now st) =
        reminder_queue st @ take k (select_due (db st) (strftime now))) \<and>
   (\<forall>x \<in> set (drop (length (reminder_queue st)) (reminder_queue (check_reminders_cycle f now st))).
      x \<in> set (db st) \<and> is_completed x = 0)"
proof (intro conjI)
  show "pushed (final (for_body f r w)) = pushed w @ [r]"
    by (rule for_body_pushed)
  show "\<exists>k \<le> length (select_due (db st) (strftime now)).
      reminder_queue (check_reminders_cycle f now st) =
        reminder_queue st @ take k (select_due (db st) (strftime now))"
    by (rule cycle_queue_take)
  show "\<forall>x \<in> set (drop (length (reminder_queue st)) (reminder_queue (check_reminders_cycle f now st))).
      x \<in> set (db st) \<and> is_completed x = 0"
  proof
    fix x
    assume x: "x \<in> set (drop (length (reminder_queue st)) (reminder_queue (check_reminders_cycle f now st)))"
    from cycle_queue_take [of st now f] obtain k where
      "reminder_queue (check_reminders_cycle f now st) =
         reminder_queue st @ take k (select_due (db st) (strftime now))" by blast
    with x have "x \<in> set (take k (select_due (db st) (strftime now)))" by simp
    then have "x \<in> set (select_due (db st) (strftime now))" by (rule in_set_takeD)
    then show "x \<in> set (db st) \<and> is_completed x = 0" by (rule select_due_sound)
  qed
qed

theorem queue_holds_rows_as_selected_witness:
  "reminder_queue (check_reminders_cycle no_faults clock (app_with [rem_daily, rem_oneshot_late])) =
     [rem_daily, rem_oneshot_late] \<and>
   db (check_reminders_cycle no_faults clock (app_with [rem_daily, rem_oneshot_late])) =
     [rem_daily\<lparr>remind_time := ''2024-03-11 08:59:59''\<rparr>, rem_oneshot_late\<lparr>is_completed := 1\<rparr>] \<and>
   rem_oneshot_late \<in> set (db (app_with [rem_daily, rem_oneshot_late])) \<and> is_completed rem_oneshot_late = 0"
proof -
  let ?st = "app_with [rem_daily, rem_oneshot_late]"
  have q: "reminder_queue (check_reminders_cycle no_faults clock ?st) = [rem_daily, rem_oneshot_late]"
    by code_simp
  have d: "db (check_reminders_cycle no_faults clock ?st) =
     [rem_daily\<lparr>remind_time := ''2024-03-11 08:59:59''\<rparr>, rem_oneshot_late\<lparr>is_completed := 1\<rparr>]"
    by code_simp
  have e: "reminder_queue ?st = []"
    by (simp add: app_with_def)
  from queue_holds_rows_as_selected [of no_faults rem_daily "connect ?st" ?st clock]
  have "\<forall>x \<in> set (drop (length (reminder_queue ?st))
            (reminder_queue (check_reminders_cycle no_faults clock ?st))).
          x \<in> set (db ?st) \<and> is_completed x = 0"
    by blast
  with q e have "rem_oneshot_late \<in> set (db ?st) \<and> is_completed rem_oneshot_late = 0"
    by simp
  with q d show ?thesis by simp
qed

lemma map_rid_update_completed [simp]: "map rid (update_completed i rows) = map rid rows"
  by (simp add: update_completed_def)

lemma map_rid_update_remind_time [simp]: "map rid (update_remind_time t i rows) = map rid rows"
  by (simp add: update_remind_time_def)

lemma update_recurring_reminder_ids:
  "update_recurring_reminder f c r = Inr c' \<Longrightarrow> map rid c' = map rid c"
  by (auto simp: update_recurring_reminder_def split: sum.splits option.splits if_splits)

lemma for_body_ids:
  "map rid (txn w) = ids \<Longrightarrow> map rid (committed w) = ids \<Longrightarrow>
   map rid (txn (final (for_body f r w))) = ids \<and> map rid (committed (final (for_body f r w))) = ids"
  by (auto simp: for_body_def Let_def dest: update_recurring_reminder_ids split: sum.splits)

lemma for_reminders_ids:
  "map rid (txn w) = ids \<Longrightarrow> map rid (committed w) = ids \<Longrightarrow>
   map rid (txn (final (for_reminders f rs w))) = ids \<and>
   map rid (committed (final (for_reminders f rs w))) = ids"
proof (induction rs arbitrary: w)
  case Nil
  then show ?case by simp
next
  case (Cons r rs)
  from for_body_ids [OF Cons.prems, of f r]
  have b: "map rid (txn (final (for_body f r w))) = ids"
          "map rid (committed (final (for_body f r w))) = ids" by simp_all
  show ?case
  proof (cases "for_body f r w")
    case (Inl a)
    with b show ?thesis by (cases a) simp
  next
    case (Inr w1)
    with b have "map rid (txn w1) = ids" "map rid (committed w1) = ids" by simp_all
    from Cons.IH [OF this] Inr show ?thesis by simp
  qed
qed

lemma cycle_ids: "map rid (db (check_reminders_cycle f now st)) = map rid (db st)"
proof (cases "f Connect \<or> f Select_due")
  case True
  then show ?thesis by (auto simp: check_reminders_cycle_def except_handler_def)
next
  case False
  with for_reminders_ids [of "connect st" "map rid (db st)" f "select_due (db st) (strftime now)"]
  show ?thesis by (simp add: cycle_db connect_def)
qed

lemma select_due_distinct: "distinct (map rid rows) \<Longrightarrow> distinct (map rid (select_due rows now))"
  by (simp add: select_due_def distinct_map_filter)

lemma filter_key_singleton:
  "distinct (map k xs) \<Longrightarrow> x \<in> set xs \<Longrightarrow> filter (\<lambda>y. k y = k x) xs = [x]"
proof (induction xs)
  case Nil
  then show ?case by simp
next
  case (Cons a xs)
  show ?case
  proof (cases "a = x")
    case True
    from Cons.prems True have "k x \<notin> k ` set xs" by simp
    then have "\<forall>y \<in> set xs. k y \<noteq> k x" by (metis imageI)
    then have "filter (\<lambda>y. k y = k x) xs = []" by (simp add: filter_empty_conv)
    with True show ?thesis by simp
  next
    case False
    with Cons.prems have "x \<in> set xs" "k a \<noteq> k x" by auto
    with Cons show ?thesis by simp
  qed
qed

lemma for_body_oneshot:
  "is_recurring r = 0 \<Longrightarrow> \<not> f (Update_completed (rid r)) \<Longrightarrow> \<not> f (Commit (rid r)) \<Longrightarrow>
   for_body f r w = Inr \<lparr>committed = update_completed (rid r) (txn w),
                          txn = update_completed (rid r) (txn w), pushed = pushed w @ [r]\<rparr>"
  by (simp add: for_body_def Let_def)

lemma update_completed_self: "x \<in> set rows \<Longrightarrow> x\<lparr>is_completed := 1\<rparr> \<in> set (update_completed (rid x) rows)"
  by (force simp: update_completed_def)

section \<open>One-shot reminders\<close>

text \<open>
  C5, as stated: a one-shot reminder that is due is delivered exactly once by one scheduler
  cycle and is completed afterwards. This fails when an earlier reminder of the same cycle
  raises: below, the monthly reminder set on 31 January has the smaller id and is selected
  first, its re-arming raises ValueError, and the cycle ends before the one-shot reminder
  is reached. It is neither queued nor completed.
\<close>

theorem oneshot_not_reached_counterexample:
  "select_due (db (app_with [rem_monthly, rem_oneshot_late])) (strftime clock) = [rem_monthly, rem_oneshot_late] \<and>
   is_recurring rem_oneshot_late = 0 \<and>
   reminder_queue (check_reminders_cycle no_faults clock (app_with [rem_monthly, rem_oneshot_late])) = [rem_monthly] \<and>
   db (check_reminders_cycle no_faults clock (app_with [rem_monthly, rem_oneshot_late])) = [rem_monthly, rem_oneshot_late] \<and>
   printed (check_reminders_cycle no_faults clock (app_with [rem_monthly, rem_oneshot_late])) = [ValueError]"
  by code_simp

text \<open>
  C5, amended: for a one-shot reminder \<open>r\<close> that is due, a scheduler cycle in which no
  exception is raised before the completion of \<open>r\<close> is committed (none while the reminders
  selected before it are resolved, none in its own UPDATE and commit) delivers it exactly
  once, and afterwards the persisted row of its id is \<open>r\<close> with \<open>is_completed = 1\<close>; no
  later cycle selects it. The ids of the table are distinct (a primary key).
\<close>

theorem oneshot_delivered_once_and_completed:
  assumes ids: "distinct (map rid (db st))"
    and ok: "\<not> f Connect" "\<not> f Select_due"
    and due: "select_due (db st) (strftime now) = xs @ r # ys"
    and one: "is_recurring r = 0"
    and before: "for_reminders f xs (connect st) = Inr w1"
    and own: "\<not> f (Update_completed (rid r))" "\<not> f (Commit (rid r))"
  shows "(\<exists>k \<le> length ys. reminder_queue (check_reminders_cycle f now st) =
             reminder_queue st @ xs @ [r] @ take k ys) \<and>
         count_list (xs @ [r] @ ys) r = 1 \<and>
         filter (\<lambda>x. rid x = rid r) (db (check_reminders_cycle f now st)) = [r\<lparr>is_completed := 1\<rparr>] \<and>
         (\<forall>x \<in> set (select_due (db (check_reminders_cycle f now st)) later). rid x \<noteq> rid r)"
proof -
  let ?st' = "check_reminders_cycle f now st"
  let ?r' = "r\<lparr>is_completed := 1\<rparr>"
  let ?w2 = "\<lparr>committed = update_completed (rid r) (txn w1),
              txn = update_completed (rid r) (txn w1), pushed = pushed w1 @ [r]\<rparr>"
  from select_due_distinct [OF ids, of "strftime now"] due
  have dd: "distinct (map rid (xs @ r # ys))" by simp
  then have nx: "rid r \<notin> rid ` set xs" and ny: "rid r \<notin> rid ` set ys" by auto
  have "r \<in> set (select_due (db st) (strftime now))" using due by simp
  then have rin: "r \<in> set (db st)" by (simp add: select_due_def)
  from for_reminders_other [OF nx, of "connect st" f] before rin
  have r1: "r \<in> set (txn w1)" by (simp add: keeps_def connect_def)
  have body: "for_body f r w1 = Inr ?w2" using one own by (rule for_body_oneshot)
  have run: "for_reminders f (xs @ r # ys) (connect st) = for_reminders f ys ?w2"
    using before body by (simp add: for_reminders_append)
  from r1 have r2: "?r' \<in> set (txn ?w2)" "?r' \<in> set (committed ?w2)"
    by (simp_all add: update_completed_self)
  have "rid ?r' \<notin> rid ` set ys" using ny by simp
  from for_reminders_other [OF this, of ?w2 f] r2
  have "?r' \<in> set (committed (final (for_reminders f ys ?w2)))" by (simp add: keeps_def)
  with run due ok have rdb: "?r' \<in> set (db ?st')" by (simp add: cycle_db)
  have dist': "distinct (map rid (db ?st'))" using ids by (simp add: cycle_ids)
  from filter_key_singleton [OF dist' rdb]
  have flt: "filter (\<lambda>x. rid x = rid r) (db ?st') = [?r']" by simp
  from for_reminders_pushed [of ys f ?w2] obtain k where
    k: "k \<le> length ys" "pushed (final (for_reminders f ys ?w2)) = pushed ?w2 @ take k ys" by blast
  from before have "pushed w1 = pushed (connect st) @ xs" by (rule for_reminders_pushed_Inr)
  with k run due ok have q: "reminder_queue ?st' = reminder_queue st @ xs @ [r] @ take k ys"
    by (simp add: cycle_queue connect_def)
  from nx ny have "r \<notin> set xs" "r \<notin> set ys" by auto
  then have cnt: "count_list (xs @ [r] @ ys) r = 1" by simp
  have gone: "\<forall>x \<in> set (select_due (db ?st') later). rid x \<noteq> rid r"
  proof
    fix x assume x: "x \<in> set (select_due (db ?st') later)"
    show "rid x \<noteq> rid r"
    proof
      assume "rid x = rid r"
      with x have "x \<in> set (filter (\<lambda>x. rid x = rid r) (db ?st'))" by (simp add: select_due_def)
      with flt have "x = ?r'" by simp
      with x show False by (simp add: select_due_def)
    qed
  qed
  from q k(1) cnt flt gone show ?thesis by blast
qed

theorem oneshot_delivered_once_and_completed_witness:
  "reminder_queue (check_reminders_cycle no_faults clock (app_with [rem_daily, rem_oneshot_late])) =
     [rem_daily, rem_oneshot_late] \<and>
   filter (\<lambda>x. rid x = rid rem_oneshot_late)
     (db (check_reminders_cycle no_faults clock (app_with [rem_daily, rem_oneshot_late]))) =
     [rem_oneshot_late\<lparr>is_completed := 1\<rparr>] \<and>
   count_list ([rem_daily] @ [rem_oneshot_late] @ []) rem_oneshot_late = 1"
proof -
  let ?st = "app_with [rem_daily, rem_oneshot_late]"
  let ?w1 = "\<lparr>committed = [rem_daily, rem_oneshot_late],
              txn = [rem_daily\<lparr>remind_time := ''2024-03-11 08:59:59''\<rparr>, rem_oneshot_late],
              pushed = [rem_daily]\<rparr>"
  have h1: "distinct (map rid (db ?st))"
    by (simp add: app_with_def rem_daily_def rem_oneshot_late_def)
  have h2: "\<not> no_faults Connect" "\<not> no_faults Select_due"
    by (simp_all add: no_faults_def)
  have h3: "select_due (db ?st) (strftime clock) = [rem_daily] @ rem_oneshot_late # []"
    by code_simp
  have h4: "is_recurring rem_oneshot_late = 0"
    by (simp add: rem_oneshot_late_def)
  have h5: "for_reminders no_faults [rem_daily] (connect ?st) = Inr ?w1"
    by code_simp
  have h6: "\<not> no_faults (Update_completed (rid rem_oneshot_late))" "\<not> no_faults (Commit (rid rem_oneshot_late))"
    by (simp_all add: no_faults_def)
  have q: "reminder_queue (check_reminders_cycle no_faults clock ?st) = [rem_daily, rem_oneshot_late]"
    by code_simp
  from oneshot_delivered_once_and_completed [OF h1 h2 h3 h4 h5 h6, where later = "strftime clock"]
  have "filter (\<lambda>x. rid x = rid rem_oneshot_late) (db (check_reminders_cycle no_faults clock ?st)) =
          [rem_oneshot_late\<lparr>is_completed := 1\<rparr>]"
       "count_list ([rem_daily] @ [rem_oneshot_late] @ []) rem_oneshot_late = 1"
    by blast+
  with q show ?thesis by blast
qed

lemma cycle_Inl:
  "\<not> f Connect \<Longrightarrow> \<not> f Select_due \<Longrightarrow>
   for_reminders f (select_due (db st) (strftime now)) (connect st) = Inl (e, w) \<Longrightarrow>
   check_reminders_cycle f now st = except_handler e (st\<lparr>db := committed w, reminder_queue := pushed w\<rparr>)"
  by (simp add: check_reminders_cycle_def)

lemma check_reminders_step:
  "reminder_active st \<Longrightarrow>
   check_reminders ((f, now) # es) st = check_reminders es (check_reminders_cycle f now st)"
  by simp

section \<open>A failure while one reminder is resolved\<close>

text \<open>
  C2, as stated: a store error while one due reminder is resolved is caught, the remaining
  due reminders of the same cycle are still processed, and the loop does not stop. The
  \<^verbatim>\<open>try\<close> of \<^verbatim>\<open>check_reminders\<close> encloses the whole cycle, not one reminder: below, the
  database is locked when the one-shot reminder is completed, and the daily reminder that
  was selected with it is not processed in that cycle.
\<close>

theorem sibling_not_processed_counterexample:
  "select_due (db (app_with [rem_oneshot, rem_daily])) (strftime clock) = [rem_oneshot, rem_daily] \<and>
   locked_on_completion (Update_completed (rid rem_oneshot)) \<and>
   reminder_queue (check_reminders_cycle locked_on_completion clock (app_with [rem_oneshot, rem_daily])) =
     [rem_oneshot] \<and>
   db (check_reminders_cycle locked_on_completion clock (app_with [rem_oneshot, rem_daily])) =
     [rem_oneshot, rem_daily] \<and>
   printed (check_reminders_cycle locked_on_completion clock (app_with [rem_oneshot, rem_daily])) =
     [OperationalError]"
  by code_simp

text \<open>
  C2, amended: if an exception (a store error among them) is raised while the scheduler
  resolves a due reminder \<open>r\<close>, it is caught by the handler of the cycle: it is printed and
  the scheduler sleeps 10 seconds. The reminders selected after \<open>r\<close> are not processed in
  that cycle (the queue has received the reminders up to \<open>r\<close> only); they stay in the
  table as they were. The stop flag is untouched, and the loop goes on with the next
  cycle.
\<close>

theorem failure_abandons_rest_of_cycle:
  assumes ids: "distinct (map rid (db st))"
    and ok: "\<not> f Connect" "\<not> f Select_due"
    and due: "select_due (db st) (strftime now) = xs @ r # ys"
    and before: "for_reminders f xs (connect st) = Inr w1"
    and fails: "for_body f r w1 = Inl (e, w2)"
  shows "reminder_queue (check_reminders_cycle f now st) = reminder_queue st @ xs @ [r] \<and>
         printed (check_reminders_cycle f now st) = printed st @ [e] \<and>
         sleeps (check_reminders_cycle f now st) = sleeps st @ [10] \<and>
         set ys \<subseteq> set (db (check_reminders_cycle f now st)) \<and>
         reminder_active (check_reminders_cycle f now st) = reminder_active st \<and>
         (reminder_active st \<longrightarrow>
            check_reminders ((f, now) # es) st = check_reminders es (check_reminders_cycle f now st))"
proof -
  let ?st' = "check_reminders_cycle f now st"
  have run: "for_reminders f (select_due (db st) (strftime now)) (connect st) = Inl (e, w2)"
    using due before fails by (simp add: for_reminders_append)
  from cycle_Inl [OF ok run]
  have st': "?st' = except_handler e (st\<lparr>db := committed w2, reminder_queue := pushed w2\<rparr>)" .
  from before have p1: "pushed w1 = reminder_queue st @ xs"
    by (simp add: for_reminders_pushed_Inr connect_def)
  from fails have p2: "pushed w2 = pushed w1 @ [r]" by (rule for_body_pushed_Inl)
  have q: "reminder_queue ?st' = reminder_queue st @ xs @ [r]"
    using st' p1 p2 by (simp add: except_handler_def)
  have pr: "printed ?st' = printed st @ [e]" "sleeps ?st' = sleeps st @ [10]"
    using st' by (simp_all add: except_handler_def)
  from select_due_distinct [OF ids, of "strftime now"] due
  have dd: "distinct (map rid (xs @ r # ys))" by simp
  have rest: "set ys \<subseteq> set (db ?st')"
  proof
    fix y assume y: "y \<in> set ys"
    then have iy: "rid y \<in> rid ` set ys" by (rule imageI)
    from dd have "rid ` set xs \<inter> rid ` set ys = {}" "rid r \<notin> rid ` set ys" by auto
    with iy have nx: "rid y \<notin> rid ` set xs" and nr: "rid y \<noteq> rid r" by auto
    from y due have "y \<in> set (select_due (db st) (strftime now))" by simp
    then have yin: "y \<in> set (db st)" by (simp add: select_due_def)
    from for_reminders_other [OF nx, of "connect st" f] before yin
    have "y \<in> set (txn w1)" "y \<in> set (committed w1)" by (simp_all add: keeps_def connect_def)
    with for_body_other [OF nr, of w1 f] fails have "y \<in> set (committed w2)"
      by (simp add: keeps_def)
    with st' show "y \<in> set (db ?st')" by (simp add: except_handler_def)
  qed
  from q pr rest show ?thesis by (simp add: cycle_active)
qed

theorem failure_abandons_rest_of_cycle_witness:
  "reminder_queue (check_reminders_cycle locked_on_completion clock (app_with [rem_oneshot, rem_daily])) =
     [] @ [] @ [rem_oneshot] \<and>
   set [rem_daily] \<subseteq> set (db (check_reminders_cycle locked_on_completion clock (app_with [rem_oneshot, rem_daily]))) \<and>
   reminder_queue (check_reminders [(locked_on_completion, clock), (no_faults, clock_next)]
                     (app_with [rem_oneshot, rem_daily])) =
     [rem_oneshot, rem_oneshot, rem_daily]"
proof -
  let ?st = "app_with [rem_oneshot, rem_daily]"
  let ?w2 = "\<lparr>committed = [rem_oneshot, rem_daily], txn = [rem_oneshot, rem_daily],
              pushed = [rem_oneshot]\<rparr>"
  have h1: "distinct (map rid (db ?st))"
    by (simp add: app_with_def rem_daily_def rem_oneshot_def)
  have h2: "\<not> locked_on_completion Connect" "\<not> locked_on_completion Select_due"
    by (simp_all add: locked_on_completion_def)
  have h3: "select_due (db ?st) (strftime clock) = [] @ rem_oneshot # [rem_daily]"
    by code_simp
  have h4: "for_reminders locked_on_completion [] (connect ?st) = Inr (connect ?st)"
    by simp
  have h5: "for_body locked_on_completion rem_oneshot (connect ?st) = Inl (OperationalError, ?w2)"
    by code_simp
  have a: "reminder_active ?st"
    by (simp add: app_with_def)
  have e: "reminder_queue ?st = []"
    by (simp add: app_with_def)
  have l: "reminder_queue (check_reminders [(locked_on_completion, clock), (no_faults, clock_next)] ?st) =
     [rem_oneshot, rem_oneshot, rem_daily]"
    by code_simp
  from failure_abandons_rest_of_cycle [OF h1 h2 h3 h4 h5, of "[]"] e l
  show ?thesis by simp
qed

section \<open>A recurring reminder with an unknown unit\<close>

text \<open>
  C3, as stated: for a recurring reminder whose unit is outside the five supported ones,
  the next-time computation is an error that is reported, not a silent no-op. The chain of
  \<^verbatim>\<open>update_recurring_reminder\<close> ends in \<^verbatim>\<open>else: return\<close>: for the unit \<^verbatim>\<open>years\<close> below nothing
  is raised, nothing is printed, and the cycle ends like one without incident.
\<close>

theorem unknown_unit_not_reported_counterexample:
  "recurring_unit rem_yearly = Some ''years'' \<and>
   update_recurring_reminder no_faults [rem_yearly] rem_yearly = Inr [rem_yearly] \<and>
   printed (check_reminders_cycle no_faults clock (app_with [rem_yearly])) = [] \<and>
   sleeps (check_reminders_cycle no_faults clock (app_with [rem_yearly])) = [60] \<and>
   db (check_reminders_cycle no_faults clock (app_with [rem_yearly])) = [rem_yearly]"
  by code_simp

text \<open>
  C3, amended: for a recurring reminder whose \<open>remind_time\<close> parses and whose unit is
  outside \<open>{minutes, hours, days, weeks, months}\<close> (NULL included), the next-time
  computation is a silent no-op: no new time is computed, \<^verbatim>\<open>update_recurring_reminder\<close>
  returns without an UPDATE and without any report, and the loop body returns normally
  having only queued the reminder. The reminder is not re-armed and not marked completed,
  and the cycle goes on with the next reminder.
\<close>

theorem unknown_unit_is_silent_noop:
  assumes unit: "recurring_unit r \<notin> {Some ''minutes'', Some ''hours'', Some ''days'', Some ''weeks'', Some ''months''}"
    and parses: "strptime (remind_time r) = Inr t"
    and rec: "is_recurring r \<noteq> 0"
  shows "new_time t (recurring_interval r) (recurring_unit r) = Inr None \<and>
         update_recurring_reminder f cursor r = Inr cursor \<and>
         for_body f r w = Inr (w\<lparr>pushed := pushed w @ [r]\<rparr>)"
proof -
  from unit have n: "new_time t (recurring_interval r) (recurring_unit r) = Inr None"
    by (simp add: new_time_def)
  with parses have u: "\<And>c. update_recurring_reminder f c r = Inr c"
    by (simp add: update_recurring_reminder_def)
  with rec have "for_body f r w = Inr (w\<lparr>pushed := pushed w @ [r]\<rparr>)"
    by (simp add: for_body_def Let_def)
  with n u show ?thesis by simp
qed

theorem unknown_unit_is_silent_noop_witness:
  "recurring_unit rem_yearly \<notin> {Some ''minutes'', Some ''hours'', Some ''days'', Some ''weeks'', Some ''months''} \<and>
   strptime (remind_time rem_yearly) =
     Inr \<lparr>year = 2024, month = 3, day = 10, hour = 8, minute = 59, second = 59\<rparr> \<and>
   is_recurring rem_yearly \<noteq> 0 \<and>
   for_body no_faults rem_yearly (connect (app_with [rem_yearly])) =
     Inr \<lparr>committed = [rem_yearly], txn = [rem_yearly], pushed = [rem_yearly]\<rparr>"
proof -
  have h1: "recurring_unit rem_yearly \<notin> {Some ''minutes'', Some ''hours'', Some ''days'', Some ''weeks'', Some ''months''}"
    by (simp add: rem_yearly_def)
  have h2: "strptime (remind_time rem_yearly) =
     Inr \<lparr>year = 2024, month = 3, day = 10, hour = 8, minute = 59, second = 59\<rparr>"
    by code_simp
  have h3: "is_recurring rem_yearly \<noteq> 0"
    by (simp add: rem_yearly_def)
  from unknown_unit_is_silent_noop [OF h1 h2 h3, of no_faults _ "connect (app_with [rem_yearly])"]
  have "for_body no_faults rem_yearly (connect (app_with [rem_yearly])) =
          Inr ((connect (app_with [rem_yearly]))\<lparr>pushed := pushed (connect (app_with [rem_yearly])) @ [rem_yearly]\<rparr>)"
    by blast
  then have "for_body no_faults rem_yearly (connect (app_with [rem_yearly])) =
     Inr \<lparr>committed = [rem_yearly], txn = [rem_yearly], pushed = [rem_yearly]\<rparr>"
    by (simp add: connect_def app_with_def)
  with h1 h2 h3 show ?thesis by blast
qed

section \<open>Re-arming a daily reminder\<close>

text \<open>
  C1. A recurring reminder that is due, with interval 1 and unit days, is delivered once by
  one scheduler cycle, and after the cycle its persisted \<open>remind_time\<close> is the old one plus
  one day. The code computes that time and sends the UPDATE, but on the recurring path
  nothing commits: \<^verbatim>\<open>update_recurring_reminder\<close> has no \<^verbatim>\<open>commit\<close>, the only
  \<^verbatim>\<open>conn.commit()\<close> of the cycle is in the one-shot branch, and \<^verbatim>\<open>conn.close()\<close> discards
  the open transaction. With the daily reminder alone in the table, the transaction holds
  the new time 2024-03-11 08:59:59, the table after the cycle still holds 2024-03-10
  08:59:59, and the next cycle delivers the reminder again.
\<close>

theorem daily_rearm_is_not_persisted:
  "select_due (db (app_with [rem_daily])) (strftime clock) = [rem_daily] \<and>
   update_recurring_reminder no_faults [rem_daily] rem_daily =
     Inr [rem_daily\<lparr>remind_time := ''2024-03-11 08:59:59''\<rparr>] \<and>
   reminder_queue (check_reminders_cycle no_faults clock (app_with [rem_daily])) = [rem_daily] \<and>
   db (check_reminders_cycle no_faults clock (app_with [rem_daily])) = [rem_daily] \<and>
   printed (check_reminders_cycle no_faults clock (app_with [rem_daily])) = [] \<and>
   reminder_queue (check_reminders [(no_faults, clock), (no_faults, clock_next)] (app_with [rem_daily])) =
     [rem_daily, rem_daily]"
  by code_simp

section \<open>The month step\<close>

lemma new_time_months:
  "new_time t (Some n) (Some ''months'') =
     (case replace_year_month t (target_year t n) (target_month t n) of
        Inl e \<Rightarrow> Inl e | Inr t' \<Rightarrow> Inr (Some t'))"
  by (simp add: new_time_def target_year_def target_month_def)

lemma next_month_spec_eq:
  "next_month_spec t n = t\<lparr>year := target_year t n, month := target_month t n\<rparr>"
  by (simp add: next_month_spec_def target_year_def target_month_def Let_def algebra_simps)

lemma target_month_range: "1 \<le> target_month t n \<and> target_month t n \<le> 12"
  by (simp add: target_month_def)

lemma valid_datetimeD:
  "valid_datetime t \<Longrightarrow>
     MINYEAR \<le> year t \<and> year t \<le> MAXYEAR \<and> 1 \<le> month t \<and> month t \<le> 12 \<and>
     1 \<le> day t \<and> day t \<le> days_in_month (year t) (month t) \<and>
     check_time_fields (hour t) (minute t) (second t)"
  by (simp add: valid_datetime_def check_date_fields_def split: if_splits)

lemma replace_in_range:
  assumes "valid_datetime t" and "MINYEAR \<le> y" "y \<le> MAXYEAR" "1 \<le> m" "m \<le> 12"
  shows "replace_year_month t y m =
     (if day t \<le> days_in_month y m then Inr (t\<lparr>year := y, month := m\<rparr>) else Inl ValueError)"
  using assms valid_datetimeD [of t]
  by (simp add: replace_year_month_def mk_datetime_def check_date_fields_def
      C_INT_MAX_def MINYEAR_def MAXYEAR_def)

lemma replace_out_of_range:
  assumes "y < MINYEAR \<or> MAXYEAR < y"
  shows "replace_year_month t y m = Inl ValueError \<or> replace_year_month t y m = Inl OverflowError"
  using assms
  by (auto simp: replace_year_month_def mk_datetime_def check_date_fields_def)

lemma replace_returns:
  "replace_year_month t y m = Inr t' \<Longrightarrow> t' = t\<lparr>year := y, month := m\<rparr> \<and> valid_datetime t'"
  by (auto simp: replace_year_month_def mk_datetime_def valid_datetime_def split: if_splits)

text \<open>
  C6. For the unit \<^verbatim>\<open>months\<close> the next time is the base with the month and the year of
  the specification's computation (\<open>next_month_spec\<close>) and the day, hour, minute and
  second of the base. Whenever the code returns a time it is that one, and it returns it
  whenever that is a date of the calendar.
\<close>

theorem months_follow_spec:
  "(valid_datetime base \<and> valid_datetime (next_month_spec base n) \<longrightarrow>
      new_time base (Some n) (Some ''months'') = Inr (Some (next_month_spec base n))) \<and>
   (\<forall>t. new_time base (Some n) (Some ''months'') = Inr (Some t) \<longrightarrow>
      t = next_month_spec base n \<and>
      month t = (month base - 1 + n) mod 12 + 1 \<and>
      year t = year base + (month base - 1 + n) div 12 \<and>
      day t = day base \<and> hour t = hour base \<and> minute t = minute base \<and> second t = second base)"
proof (intro conjI allI impI)
  assume v: "valid_datetime base \<and> valid_datetime (next_month_spec base n)"
  then have "MINYEAR \<le> target_year base n" "target_year base n \<le> MAXYEAR"
      "day base \<le> days_in_month (target_year base n) (target_month base n)"
    using valid_datetimeD [of "next_month_spec base n"] by (simp_all add: next_month_spec_eq)
  with v target_month_range [of base n]
  show "new_time base (Some n) (Some ''months'') = Inr (Some (next_month_spec base n))"
    by (simp add: new_time_months replace_in_range next_month_spec_eq)
next
  fix t assume "new_time base (Some n) (Some ''months'') = Inr (Some t)"
  then have "replace_year_month base (target_year base n) (target_month base n) = Inr t"
    by (simp add: new_time_months split: sum.splits)
  then have t: "t = next_month_spec base n"
    by (simp add: replace_returns next_month_spec_eq)
  then show "t = next_month_spec base n" .
  from t show "month t = (month base - 1 + n) mod 12 + 1"
    by (simp add: next_month_spec_def Let_def)
  from t show "year t = year base + (month base - 1 + n) div 12"
    by (simp add: next_month_spec_def Let_def)
  from t show "day t = day base" "hour t = hour base" "minute t = minute base" "second t = second base"
    by (simp_all add: next_month_spec_def Let_def)
qed

theorem months_follow_spec_witness:
  "valid_datetime end_of_november \<and> valid_datetime (next_month_spec end_of_november 14) \<and>
   new_time end_of_november (Some 14) (Some ''months'') =
     Inr (Some \<lparr>year = 2026, month = 1, day = 30, hour = 9, minute = 0, second = 0\<rparr>)"
proof -
  have v: "valid_datetime end_of_november \<and> valid_datetime (next_month_spec end_of_november 14)"
    by code_simp
  have s: "next_month_spec end_of_november 14 =
      \<lparr>year = 2026, month = 1, day = 30, hour = 9, minute = 0, second = 0\<rparr>"
    by code_simp
  from months_follow_spec [of end_of_november 14] v
  have "new_time end_of_november (Some 14) (Some ''months'') =
          Inr (Some (next_month_spec end_of_november 14))"
    by blast
  with v s show ?thesis by simp
qed

text \<open>
  C10, as stated: for the unit \<^verbatim>\<open>months\<close> the computation raises ValueError whenever the
  day of the base does not exist in the target month, and returns normally for every base
  whose day exists there. The second half fails at the end of the calendar: from 15
  December 9999 the target is January 10000, a month with a 15th day, and \<^verbatim>\<open>replace\<close>
  raises ValueError because \<^verbatim>\<open>datetime\<close> has no year 10000.
\<close>

theorem year_10000_counterexample:
  "valid_datetime end_of_calendar \<and>
   target_month end_of_calendar 1 = 1 \<and> target_year end_of_calendar 1 = 10000 \<and>
   day end_of_calendar \<le> days_in_month (target_year end_of_calendar 1) (target_month end_of_calendar 1) \<and>
   new_time end_of_calendar (Some 1) (Some ''months'') = Inl ValueError"
  by code_simp

text \<open>
  C10, amended: for the unit \<^verbatim>\<open>months\<close> and a target year within 1..9999, the computation
  raises ValueError whenever the day of the base does not exist in the target month (no
  date is clamped), and for every base whose day exists in the target month it returns
  the base moved to that month. A target year outside 1..9999 raises whatever the day is.
\<close>

theorem month_without_the_day_raises:
  assumes "valid_datetime base"
  shows "(MINYEAR \<le> target_year base n \<and> target_year base n \<le> MAXYEAR \<and>
          days_in_month (target_year base n) (target_month base n) < day base \<longrightarrow>
            new_time base (Some n) (Some ''months'') = Inl ValueError) \<and>
         (MINYEAR \<le> target_year base n \<and> target_year base n \<le> MAXYEAR \<and>
          day base \<le> days_in_month (target_year base n) (target_month base n) \<longrightarrow>
            new_time base (Some n) (Some ''months'') =
              Inr (Some (base\<lparr>year := target_year base n, month := target_month base n\<rparr>))) \<and>
         (target_year base n < MINYEAR \<or> MAXYEAR < target_year base n \<longrightarrow>
            new_time base (Some n) (Some ''months'') = Inl ValueError \<or>
            new_time base (Some n) (Some ''months'') = Inl OverflowError)"
proof (intro conjI impI)
  assume "MINYEAR \<le> target_year base n \<and> target_year base n \<le> MAXYEAR \<and>
          days_in_month (target_year base n) (target_month base n) < day base"
  with assms target_month_range [of base n]
  show "new_time base (Some n) (Some ''months'') = Inl ValueError"
    by (simp add: new_time_months replace_in_range)
next
  assume "MINYEAR \<le> target_year base n \<and> target_year base n \<le> MAXYEAR \<and>
          day base \<le> days_in_month (target_year base n) (target_month base n)"
  with assms target_month_range [of base n]
  show "new_time base (Some n) (Some ''months'') =
          Inr (Some (base\<lparr>year := target_year base n, month := target_month base n\<rparr>))"
    by (simp add: new_time_months replace_in_range)
next
  assume "target_year base n < MINYEAR \<or> MAXYEAR < target_year base n"
  from replace_out_of_range [OF this, of base "target_month base n"]
  show "new_time base (Some n) (Some ''months'') = Inl ValueError \<or>
        new_time base (Some n) (Some ''months'') = Inl OverflowError"
    by (auto simp: new_time_months)
qed

theorem month_without_the_day_raises_witness:
  "valid_datetime end_of_january \<and>
   days_in_month (target_year end_of_january 1) (target_month end_of_january 1) < day end_of_january \<and>
   new_time end_of_january (Some 1) (Some ''months'') = Inl ValueError \<and>
   day end_of_january \<le> days_in_month (target_year end_of_january 2) (target_month end_of_january 2) \<and>
   new_time end_of_january (Some 2) (Some ''months'') =
     Inr (Some (end_of_january\<lparr>year := target_year end_of_january 2, month := target_month end_of_january 2\<rparr>)) \<and>
   MAXYEAR < target_year end_of_calendar 1 \<and>
   (new_time end_of_calendar (Some 1) (Some ''months'') = Inl ValueError \<or>
    new_time end_of_calendar (Some 1) (Some ''months'') = Inl OverflowError)"
proof -
  have v: "valid_datetime end_of_january"
    by code_simp
  have r1: "MINYEAR \<le> target_year end_of_january 1 \<and> target_year end_of_january 1 \<le> MAXYEAR \<and>
      days_in_month (target_year end_of_january 1) (target_month end_of_january 1) < day end_of_january"
    by code_simp
  have r2: "MINYEAR \<le> target_year end_of_january 2 \<and> target_year end_of_january 2 \<le> MAXYEAR \<and>
      day end_of_january \<le> days_in_month (target_year end_of_january 2) (target_month end_of_january 2)"
    by code_simp
  have v3: "valid_datetime end_of_calendar"
    by code_simp
  have r3: "target_year end_of_calendar 1 < MINYEAR \<or> MAXYEAR < target_year end_of_calendar 1"
    by code_simp
  have m: "MAXYEAR < target_year end_of_calendar 1"
    by code_simp
  from month_without_the_day_raises [OF v, of 1] r1
  have a: "new_time end_of_january (Some 1) (Some ''months'') = Inl ValueError"
    by blast
  from month_without_the_day_raises [OF v, of 2] r2
  have b: "new_time end_of_january (Some 2) (Some ''months'') =
     Inr (Some (end_of_january\<lparr>year := target_year end_of_january 2, month := target_month end_of_january 2\<rparr>))"
    by blast
  from month_without_the_day_raises [OF v3, of 1] r3
  have c: "new_time end_of_calendar (Some 1) (Some ''months'') = Inl ValueError \<or>
           new_time end_of_calendar (Some 1) (Some ''months'') = Inl OverflowError"
    by blast
  from v r1 r2 a b c m show ?thesis by blast
qed

section \<open>Measuring datetimes\<close>

text \<open>The instant of a datetime, in seconds counted from the start of day 0 (the day
  before 0001-01-01), and the instants that the calendar of \<^verbatim>\<open>datetime\<close> covers:
  0001-01-01 00:00:00 up to 9999-12-31 23:59:59.\<close>

definition to_seconds :: "datetime \<Rightarrow> int" where
  "to_seconds t = toordinal t * 86400 + hour t * 3600 + minute t * 60 + second t"

definition in_calendar :: "int \<Rightarrow> bool" where
  "in_calendar T = (86400 \<le> T \<and> T < (MAXORDINAL + 1) * 86400)"

text \<open>The four units of fixed duration, with their length in seconds.\<close>

definition fixed_units :: "(string \<times> int) list" where
  "fixed_units = [(''minutes'', 60), (''hours'', 3600), (''days'', 86400), (''weeks'', 604800)]"

text \<open>The datetime of an instant, and the two stages of \<^verbatim>\<open>_ord2ymd\<close> (the division cascade
  and the month estimate) as functions of their own; they serve the proofs below.\<close>

definition from_seconds :: "int \<Rightarrow> datetime" where
  "from_seconds T =
     (case ord2ymd (T div 86400) of
        (y, m, d) \<Rightarrow> \<lparr>year = y, month = m, day = d, hour = T mod 86400 div 3600,
                      minute = T mod 86400 mod 3600 div 60, second = T mod 86400 mod 3600 mod 60\<rparr>)"

definition month_day :: "bool \<Rightarrow> int \<Rightarrow> int \<times> int" where
  "month_day leapyear n =
     (let m = (n + 50) div 32;
          preceding = DAYS_BEFORE_MONTH ! nat m + (if m > 2 \<and> leapyear then 1 else 0)
      in if preceding > n
         then let m' = m - 1;
                  preceding' = preceding
                    - (DAYS_IN_MONTH ! nat m' + (if m' = 2 \<and> leapyear then 1 else 0))
              in (m', n - preceding' + 1)
         else (m, n - preceding + 1))"

definition month_day_ok :: "bool \<Rightarrow> int \<Rightarrow> bool" where
  "month_day_ok leapyear n =
     (case month_day leapyear n of
        (m, d) \<Rightarrow> 1 \<le> m \<and> m \<le> 12 \<and> 1 \<le> d \<and>
          d \<le> DAYS_IN_MONTH ! nat m + (if m = 2 \<and> leapyear then 1 else 0) \<and>
          DAYS_BEFORE_MONTH ! nat m + (if m > 2 \<and> leapyear then 1 else 0) + d = n + 1)"

definition ord2ymd_parts :: "int \<Rightarrow> int \<Rightarrow> int \<Rightarrow> int \<Rightarrow> int \<Rightarrow> int \<times> int \<times> int" where
  "ord2ymd_parts n400 n100 n4 n1 n =
     (if n1 = 4 \<or> n100 = 4 then (n400 * 400 + 1 + n100 * 100 + n4 * 4 + n1 - 1, 12, 31)
      else
        if DAYS_BEFORE_MONTH ! nat ((n + 50) div 32) +
             (if (n + 50) div 32 > 2 \<and> (n1 = 3 \<and> (n4 \<noteq> 24 \<or> n100 = 3)) then 1 else 0) > n
        then (n400 * 400 + 1 + n100 * 100 + n4 * 4 + n1, (n + 50) div 32 - 1,
              n - (DAYS_BEFORE_MONTH ! nat ((n + 50) div 32) +
                    (if (n + 50) div 32 > 2 \<and> (n1 = 3 \<and> (n4 \<noteq> 24 \<or> n100 = 3)) then 1 else 0)
                   - (DAYS_IN_MONTH ! nat ((n + 50) div 32 - 1) +
                       (if (n + 50) div 32 - 1 = 2 \<and> (n1 = 3 \<and> (n4 \<noteq> 24 \<or> n100 = 3)) then 1 else 0)))
                + 1)
        else (n400 * 400 + 1 + n100 * 100 + n4 * 4 + n1, (n + 50) div 32,
              n - (DAYS_BEFORE_MONTH ! nat ((n + 50) div 32) +
                    (if (n + 50) div 32 > 2 \<and> (n1 = 3 \<and> (n4 \<noteq> 24 \<or> n100 = 3)) then 1 else 0))
                + 1))"

section \<open>The calendar arithmetic\<close>

lemma div_mod_succ:
  fixes k m :: int
  assumes "0 < m"
  shows "(k + 1) div m = (if k mod m = m - 1 then k div m + 1 else k div m)"
    and "(k + 1) mod m = (if k mod m = m - 1 then 0 else k mod m + 1)"
proof -
  have k: "k = m * (k div m) + k mod m" by simp
  have r: "0 \<le> k mod m" "k mod m < m" using assms by simp_all
  show "(k + 1) div m = (if k mod m = m - 1 then k div m + 1 else k div m)"
  proof (cases "k mod m = m - 1")
    case True
    with k have "k + 1 = m * (k div m) + m" by linarith
    then have "k + 1 = m * (k div m + 1) + 0" by (simp add: algebra_simps)
    from int_div_pos_eq [OF this] assms True show ?thesis by simp
  next
    case False
    from k have e: "k + 1 = m * (k div m) + (k mod m + 1)" by linarith
    from False r have "0 \<le> k mod m + 1" "k mod m + 1 < m" by linarith+
    from int_div_pos_eq [OF e this] False show ?thesis by simp
  qed
  show "(k + 1) mod m = (if k mod m = m - 1 then 0 else k mod m + 1)"
  proof (cases "k mod m = m - 1")
    case True
    with k have "k + 1 = m * (k div m) + m" by linarith
    then have "k + 1 = m * (k div m + 1) + 0" by (simp add: algebra_simps)
    from int_mod_pos_eq [OF this] assms True show ?thesis by simp
  next
    case False
    from k have e: "k + 1 = m * (k div m) + (k mod m + 1)" by linarith
    from False r have "0 \<le> k mod m + 1" "k mod m + 1 < m" by linarith+
    from int_mod_pos_eq [OF e this] False show ?thesis by simp
  qed
qed

lemma div_next:
  fixes y m :: int
  assumes "0 < m"
  shows "y div m = (y - 1) div m + (if y mod m = 0 then 1 else 0)"
proof -
  have r: "0 \<le> (y - 1) mod m" using assms by simp
  from div_mod_succ [OF assms, of "y - 1"] r show ?thesis by (auto split: if_splits)
qed

lemma dby_next: "days_before_year (y + 1) = days_before_year y + 365 + (if is_leap y then 1 else 0)"
proof -
  have d4: "y div 4 = (y - 1) div 4 + (if y mod 4 = 0 then 1 else 0)" by (rule div_next) simp
  have d100: "y div 100 = (y - 1) div 100 + (if y mod 100 = 0 then 1 else 0)" by (rule div_next) simp
  have d400: "y div 400 = (y - 1) div 400 + (if y mod 400 = 0 then 1 else 0)" by (rule div_next) simp
  have "(100::int) dvd 400" "(4::int) dvd 100" by simp_all
  then have i: "y mod 400 = 0 \<Longrightarrow> y mod 100 = 0" "y mod 100 = 0 \<Longrightarrow> y mod 4 = 0"
    by (meson dvd_trans mod_eq_0_iff_dvd)+
  show ?thesis
    unfolding days_before_year.simps is_leap.simps
    using i by (simp add: d4 d100 d400 algebra_simps)
qed

lemma dby_mono: "y1 \<le> y2 \<Longrightarrow> days_before_year y1 + 365 * (y2 - y1) \<le> days_before_year y2"
proof (induction y2 rule: int_ge_induct)
  case base
  then show ?case by simp
next
  case (step i)
  with dby_next [of i] show ?case by (simp add: algebra_simps)
qed

lemma decompose_div:
  fixes a b c d :: int
  assumes "0 \<le> b" "b \<le> 3" "0 \<le> c" "c \<le> 24" "0 \<le> d" "d \<le> 3"
  shows "(400 * a + 100 * b + 4 * c + d) div 4 = 100 * a + 25 * b + c"
    and "(400 * a + 100 * b + 4 * c + d) div 100 = 4 * a + b"
    and "(400 * a + 100 * b + 4 * c + d) div 400 = a"
  using assms by linarith+

lemma dby_decompose:
  assumes "0 \<le> b" "b \<le> 3" "0 \<le> c" "c \<le> 24" "0 \<le> d" "d \<le> 3"
  shows "days_before_year (400 * a + 100 * b + 4 * c + d + 1) = 146097 * a + 36524 * b + 1461 * c + 365 * d"
  unfolding days_before_year.simps using decompose_div [OF assms, of a] by simp

lemma leap_decompose:
  assumes "0 \<le> b" "b \<le> 3" "0 \<le> c" "c \<le> 24" "0 \<le> d" "d \<le> 3"
  shows "is_leap (400 * a + 100 * b + 4 * c + d + 1) \<longleftrightarrow> (d = 3 \<and> (c \<noteq> 24 \<or> b = 3))"
proof -
  let ?k = "400 * a + 100 * b + 4 * c + d"
  have m4: "?k mod 4 = d" using decompose_div(1) [OF assms, of a] minus_mult_div_eq_mod [of ?k 4] by linarith
  have m100: "?k mod 100 = 4 * c + d" using decompose_div(2) [OF assms, of a] minus_mult_div_eq_mod [of ?k 100] by linarith
  have m400: "?k mod 400 = 100 * b + 4 * c + d" using decompose_div(3) [OF assms, of a] minus_mult_div_eq_mod [of ?k 400] by linarith
  have s4: "(?k + 1) mod 4 = 0 \<longleftrightarrow> d = 3"
    using div_mod_succ(2) [of 4 ?k] m4 assms by (auto split: if_splits)
  have s100: "(?k + 1) mod 100 = 0 \<longleftrightarrow> 4 * c + d = 99"
    using div_mod_succ(2) [of 100 ?k] m100 assms by (auto split: if_splits)
  have s400: "(?k + 1) mod 400 = 0 \<longleftrightarrow> 100 * b + 4 * c + d = 399"
    using div_mod_succ(2) [of 400 ?k] m400 assms by (auto split: if_splits)
  have e100: "4 * c + d = 99 \<longleftrightarrow> c = 24 \<and> d = 3" using assms by presburger
  have e400: "100 * b + 4 * c + d = 399 \<longleftrightarrow> b = 3 \<and> c = 24 \<and> d = 3" using assms by presburger
  show ?thesis
    unfolding is_leap.simps s4 s100 s400 e100 e400 by auto
qed


lemma month_cases:
  fixes m :: int
  assumes "1 \<le> m" "m \<le> 12"
  shows "m = 1 \<or> m = 2 \<or> m = 3 \<or> m = 4 \<or> m = 5 \<or> m = 6 \<or> m = 7 \<or> m = 8 \<or> m = 9 \<or> m = 10 \<or> m = 11 \<or> m = 12"
  using assms by arith

lemmas month_tables = days_before_month.simps days_in_month.simps DAYS_BEFORE_MONTH_def DAYS_IN_MONTH_def

lemma dbm_next:
  assumes "1 \<le> m" "m \<le> 11"
  shows "days_before_month y (m + 1) = days_before_month y m + days_in_month y m"
proof -
  from assms have "1 \<le> m" "m \<le> 12" by simp_all
  from month_cases [OF this] assms(2) show ?thesis
    by (elim disjE) (simp_all add: month_tables)
qed

lemma dbm_last: "days_before_month y 12 + days_in_month y 12 = 365 + (if is_leap y then 1 else 0)"
  by (simp add: month_tables)

lemma dim_bounds:
  assumes "1 \<le> m" "m \<le> 12"
  shows "28 \<le> days_in_month y m \<and> days_in_month y m \<le> 31"
  using month_cases [OF assms] by (elim disjE) (simp_all add: month_tables)

lemma dbm_nonneg:
  assumes "1 \<le> m" "m \<le> 12"
  shows "0 \<le> days_before_month y m"
  using month_cases [OF assms] by (elim disjE) (simp_all add: month_tables)

lemma dbm_mono:
  assumes "1 \<le> m1" "m1 < m2" "m2 \<le> 12"
  shows "days_before_month y m1 + days_in_month y m1 \<le> days_before_month y m2"
proof -
  have "m1 + 1 \<le> m2" using assms by simp
  then have "m2 \<le> 12 \<longrightarrow> days_before_month y m1 + days_in_month y m1 \<le> days_before_month y m2"
  proof (induction m2 rule: int_ge_induct)
    case base
    show ?case using dbm_next [of m1 y] assms(1) by auto
  next
    case (step i)
    show ?case
    proof
      assume i: "i + 1 \<le> 12"
      with step assms(1) have "1 \<le> i" "i \<le> 11" "1 \<le> i" "i \<le> 12" by simp_all
      with dbm_next [of i y] dim_bounds [of i y] step i show
        "days_before_month y m1 + days_in_month y m1 \<le> days_before_month y (i + 1)" by simp
    qed
  qed
  with assms show ?thesis by simp
qed

lemma year_len:
  assumes "1 \<le> m" "m \<le> 12"
  shows "days_before_month y m + days_in_month y m \<le> 365 + (if is_leap y then 1 else 0)"
proof (cases "m = 12")
  case True
  then show ?thesis using dbm_last [of y] by simp
next
  case False
  with assms have "m < 12" by simp
  from dbm_mono [OF assms(1) this, of y] dbm_last [of y] dim_bounds [of 12 y]
  show ?thesis by simp
qed

lemma check_date_fieldsD:
  "check_date_fields y m d \<Longrightarrow>
     1 \<le> y \<and> y \<le> 9999 \<and> 1 \<le> m \<and> m \<le> 12 \<and> 1 \<le> d \<and> d \<le> days_in_month y m"
  by (simp add: check_date_fields_def MINYEAR_def MAXYEAR_def split: if_splits)

lemma ymd2ord_less:
  assumes v1: "check_date_fields y1 m1 d1" and v2: "check_date_fields y2 m2 d2"
    and less: "y1 < y2 \<or> (y1 = y2 \<and> (m1 < m2 \<or> (m1 = m2 \<and> d1 < d2)))"
  shows "ymd2ord y1 m1 d1 < ymd2ord y2 m2 d2"
proof -
  note a = check_date_fieldsD [OF v1] and b = check_date_fieldsD [OF v2]
  from less consider (year) "y1 < y2" | (month) "y1 = y2" "m1 < m2" | (day) "y1 = y2" "m1 = m2" "d1 < d2"
    by blast
  then show ?thesis
  proof cases
    case year
    from a year_len [of m1 y1] have "ymd2ord y1 m1 d1 \<le> days_before_year (y1 + 1)"
      by (simp add: ymd2ord.simps dby_next)
    also from year dby_mono [of "y1 + 1" y2] have "\<dots> \<le> days_before_year y2" by simp
    also from b dbm_nonneg [of m2 y2] have "\<dots> < ymd2ord y2 m2 d2" by (simp add: ymd2ord.simps)
    finally show ?thesis .
  next
    case month
    with a b dbm_mono [of m1 m2 y2] show ?thesis by (simp add: ymd2ord.simps)
  next
    case day
    then show ?thesis by (simp add: ymd2ord.simps)
  qed
qed

lemma ymd2ord_inj:
  assumes "check_date_fields y1 m1 d1" "check_date_fields y2 m2 d2"
    and "ymd2ord y1 m1 d1 = ymd2ord y2 m2 d2"
  shows "y1 = y2 \<and> m1 = m2 \<and> d1 = d2"
proof (rule ccontr)
  assume "\<not> (y1 = y2 \<and> m1 = m2 \<and> d1 = d2)"
  then have "(y1 < y2 \<or> (y1 = y2 \<and> (m1 < m2 \<or> (m1 = m2 \<and> d1 < d2)))) \<or>
             (y2 < y1 \<or> (y2 = y1 \<and> (m2 < m1 \<or> (m2 = m1 \<and> d2 < d1))))" by linarith
  with ymd2ord_less [OF assms(1,2)] ymd2ord_less [OF assms(2,1)] assms(3) show False by auto
qed

lemma ymd2ord_range:
  assumes "check_date_fields y m d"
  shows "1 \<le> ymd2ord y m d \<and> ymd2ord y m d \<le> MAXORDINAL"
proof -
  note a = check_date_fieldsD [OF assms]
  from a dby_mono [of 1 y] dbm_nonneg [of m y] have "1 \<le> ymd2ord y m d"
    by (simp add: ymd2ord.simps days_before_year.simps)
  moreover from a year_len [of m y] have "ymd2ord y m d \<le> days_before_year (y + 1)"
    by (simp add: ymd2ord.simps dby_next)
  moreover from a dby_mono [of "y + 1" 10000] have "days_before_year (y + 1) \<le> days_before_year 10000" by simp
  moreover have "days_before_year 10000 = MAXORDINAL" by (simp add: days_before_year.simps MAXORDINAL_def)
  ultimately show ?thesis by simp
qed


lemma month_day_all: "\<forall>n \<in> {0..364}. month_day_ok False n \<and> month_day_ok True n"
  by code_simp

lemma month_day_correct:
  assumes "0 \<le> n" "n \<le> 364" "month_day (is_leap y) n = (m, d)"
  shows "1 \<le> m \<and> m \<le> 12 \<and> 1 \<le> d \<and> d \<le> days_in_month y m \<and> days_before_month y m + d = n + 1"
proof -
  from assms(1,2) have "n \<in> {0..364}" by simp
  with month_day_all have "month_day_ok (is_leap y) n" by (cases "is_leap y") auto
  with assms(3) show ?thesis
    by (auto simp: month_day_ok_def days_in_month.simps days_before_month.simps DAYS_IN_MONTH_def)
qed


lemma ord2ymd_unfold:
  "ord2ymd n =
     ord2ymd_parts ((n - 1) div 146097) ((n - 1) mod 146097 div 36524)
       ((n - 1) mod 146097 mod 36524 div 1461)
       ((n - 1) mod 146097 mod 36524 mod 1461 div 365)
       ((n - 1) mod 146097 mod 36524 mod 1461 mod 365)"
  unfolding ord2ymd_def ord2ymd_parts_def Let_def DI400Y_def DI100Y_def DI4Y_def
  by (rule refl)

lemma ord2ymd_parts_month_day:
  "ord2ymd_parts a b c e r =
     (if e = 4 \<or> b = 4 then (400 * a + 100 * b + 4 * c + e, 12, 31)
      else case month_day (e = 3 \<and> (c \<noteq> 24 \<or> b = 3)) r of
             (m, d) \<Rightarrow> (400 * a + 100 * b + 4 * c + e + 1, m, d))"
  by (simp add: ord2ymd_parts_def month_day_def Let_def)


lemma year_below_max:
  assumes "days_before_year y < n" "n \<le> MAXORDINAL"
  shows "y \<le> 9999"
proof (rule ccontr)
  assume "\<not> y \<le> 9999"
  then have g: "10000 \<le> y" by simp
  from g have "0 \<le> 365 * (y - 10000)" by simp
  with dby_mono [OF g] have "days_before_year 10000 \<le> days_before_year y" by simp
  moreover have "days_before_year 10000 = MAXORDINAL" by (simp add: days_before_year.simps MAXORDINAL_def)
  ultimately show False using assms by simp
qed

lemma ord2ymd_correct:
  assumes n: "1 \<le> n" "n \<le> MAXORDINAL" and res: "ord2ymd n = (y, m, d)"
  shows "check_date_fields y m d \<and> ymd2ord y m d = n"
proof -
  define a where "a = (n - 1) div 146097"
  define r400 where "r400 = (n - 1) mod 146097"
  define b where "b = r400 div 36524"
  define r100 where "r100 = r400 mod 36524"
  define c where "c = r100 div 1461"
  define r4 where "r4 = r100 mod 1461"
  define e where "e = r4 div 365"
  define r where "r = r4 mod 365"
  have n_eq: "n - 1 = 146097 * a + r400" and r400: "0 \<le> r400" "r400 < 146097"
    by (simp_all add: a_def r400_def)
  have r400_eq: "r400 = 36524 * b + r100" and r100: "0 \<le> r100" "r100 < 36524"
    by (simp_all add: b_def r100_def)
  have r100_eq: "r100 = 1461 * c + r4" and r4: "0 \<le> r4" "r4 < 1461"
    by (simp_all add: c_def r4_def)
  have r4_eq: "r4 = 365 * e + r" and r: "0 \<le> r" "r < 365"
    by (simp_all add: e_def r_def)
  have a0: "0 \<le> a" using n(1) by (simp add: a_def pos_imp_zdiv_nonneg_iff)
  have b0: "0 \<le> b" using r400(1) by (simp add: b_def pos_imp_zdiv_nonneg_iff)
  have c0: "0 \<le> c" using r100(1) by (simp add: c_def pos_imp_zdiv_nonneg_iff)
  have e0: "0 \<le> e" using r4(1) by (simp add: e_def pos_imp_zdiv_nonneg_iff)
  have b4: "b \<le> 4" using r400_eq r400 r100 by linarith
  have c24: "c \<le> 24" using r100_eq r100 r4 by linarith
  have e4: "e \<le> 4" using r4_eq r4 r by linarith
  have parts: "ord2ymd n = ord2ymd_parts a b c e r"
    unfolding a_def b_def c_def e_def r_def r4_def r100_def r400_def by (rule ord2ymd_unfold)
  show ?thesis
  proof (cases "e = 4 \<or> b = 4")
    case True
    with parts res have ymd: "y = 400 * a + 100 * b + 4 * c + e" "m = 12" "d = 31"
      by (simp_all add: ord2ymd_parts_month_day)
    have "\<exists>b' c'. 0 \<le> b' \<and> b' \<le> 3 \<and> 0 \<le> c' \<and> c' \<le> 24 \<and> (c' \<noteq> 24 \<or> b' = 3) \<and>
            y = 400 * a + 100 * b' + 4 * c' + 3 + 1 \<and>
            n = 146097 * a + 36524 * b' + 1461 * c' + 1461"
    proof (cases "b = 4")
      case True
      with r400_eq r400 r100 have "r100 = 0" by linarith
      then have "c = 0" "r4 = 0" by (simp_all add: c_def r4_def)
      then have "e = 0" "r = 0" by (simp_all add: e_def r_def)
      with \<open>c = 0\<close> \<open>r100 = 0\<close> True n_eq r400_eq ymd(1)
      show ?thesis by (intro exI [of _ 3] exI [of _ 24]) simp
    next
      case False
      with \<open>e = 4 \<or> b = 4\<close> have e: "e = 4" by simp
      with r4_eq r4 r have "r = 0" by linarith
      with e r4_eq have "r4 = 1460" by simp
      with r100_eq r100 have "c \<le> 23" by linarith
      with False b0 b4 c0 e \<open>r = 0\<close> \<open>r4 = 1460\<close> n_eq r400_eq r100_eq ymd(1)
      show ?thesis by (intro exI [of _ b] exI [of _ c]) simp
    qed
    then obtain b' c' where p: "0 \<le> b'" "b' \<le> 3" "0 \<le> c'" "c' \<le> 24" "c' \<noteq> 24 \<or> b' = 3"
      and y: "y = 400 * a + 100 * b' + 4 * c' + 3 + 1"
      and n': "n = 146097 * a + 36524 * b' + 1461 * c' + 1461" by blast
    from dby_decompose [OF p(1-4), of 3 a] y
    have dby: "days_before_year y = 146097 * a + 36524 * b' + 1461 * c' + 1095" by simp
    from leap_decompose [OF p(1-4), of 3 a] y p(5) have leap: "is_leap y" by simp
    from dby n' have "days_before_year y < n" by simp
    from year_below_max [OF this n(2)] have "y \<le> 9999" .
    moreover from y a0 p have "1 \<le> y" by simp
    ultimately have "check_date_fields y 12 31"
      by (simp add: check_date_fields_def MINYEAR_def MAXYEAR_def month_tables)
    moreover from dby leap n' have "ymd2ord y 12 31 = n"
      by (simp add: ymd2ord.simps month_tables)
    ultimately show ?thesis using ymd by simp
  next
    case False
    with b0 b4 e0 e4 have b3: "b \<le> 3" and e3: "e \<le> 3" by simp_all
    from leap_decompose [OF b0 b3 c0 c24 e0 e3, of a]
    have leap: "(e = 3 \<and> (c \<noteq> 24 \<or> b = 3)) = is_leap (400 * a + 100 * b + 4 * c + e + 1)" by simp
    from False parts res
    have ymd: "y = 400 * a + 100 * b + 4 * c + e + 1"
      and md0: "month_day (e = 3 \<and> (c \<noteq> 24 \<or> b = 3)) r = (m, d)"
      by (auto simp: ord2ymd_parts_month_day split: prod.splits)
    from md0 have md: "month_day (is_leap (400 * a + 100 * b + 4 * c + e + 1)) r = (m, d)"
      by (simp only: leap)
    from r have "r \<le> 364" by simp
    from month_day_correct [OF r(1) this md] ymd
    have mdc: "1 \<le> m" "m \<le> 12" "1 \<le> d" "d \<le> days_in_month y m" "days_before_month y m + d = r + 1"
      by simp_all
    from dby_decompose [OF b0 b3 c0 c24 e0 e3, of a] ymd
    have dby: "days_before_year y = 146097 * a + 36524 * b + 1461 * c + 365 * e" by simp
    with n_eq r400_eq r100_eq r4_eq have dbyn: "days_before_year y = n - 1 - r" by simp
    with r have "days_before_year y < n" by simp
    from year_below_max [OF this n(2)] have "y \<le> 9999" .
    moreover from ymd a0 b0 c0 e0 have "1 \<le> y" by simp
    ultimately have "check_date_fields y m d" using mdc
      by (simp add: check_date_fields_def MINYEAR_def MAXYEAR_def)
    moreover from dbyn mdc(5) have "ymd2ord y m d = n" by (simp add: ymd2ord.simps)
    ultimately show ?thesis by simp
  qed
qed

lemma ord2ymd_ymd2ord:
  assumes "check_date_fields y m d"
  shows "ord2ymd (ymd2ord y m d) = (y, m, d)"
proof -
  obtain y' m' d' where o: "ord2ymd (ymd2ord y m d) = (y', m', d')" by (cases "ord2ymd (ymd2ord y m d)")
  from ymd2ord_range [OF assms] have "1 \<le> ymd2ord y m d" "ymd2ord y m d \<le> MAXORDINAL" by simp_all
  from ord2ymd_correct [OF this o] have "check_date_fields y' m' d'" "ymd2ord y' m' d' = ymd2ord y m d"
    by simp_all
  from ymd2ord_inj [OF this(1) assms this(2)] o show ?thesis by simp
qed


lemma time_of_day:
  assumes "check_time_fields h mi s"
  shows "0 \<le> h * 3600 + mi * 60 + s \<and> h * 3600 + mi * 60 + s < 86400"
  using assms by (simp add: check_time_fields_def)

lemma split_seconds:
  fixes q :: int
  assumes "0 \<le> r" "r < 86400"
  shows "(q * 86400 + r) div 86400 = q" "(q * 86400 + r) mod 86400 = r"
  using assms by simp_all

lemma hms_of_seconds:
  fixes r :: int
  assumes "0 \<le> r" "r < 86400"
  shows "check_time_fields (r div 3600) (r mod 3600 div 60) (r mod 3600 mod 60)"
    and "r div 3600 * 3600 + r mod 3600 div 60 * 60 + r mod 3600 mod 60 = r"
proof -
  have "r div 3600 \<le> 23" using assms by linarith
  moreover have "0 \<le> r div 3600" using assms by (simp add: pos_imp_zdiv_nonneg_iff)
  moreover have "0 \<le> r mod 3600 div 60" by (simp add: pos_imp_zdiv_nonneg_iff)
  moreover have "r mod 3600 div 60 \<le> 59"
  proof -
    have "r mod 3600 < 3600" by simp
    then show ?thesis by linarith
  qed
  ultimately show "check_time_fields (r div 3600) (r mod 3600 div 60) (r mod 3600 mod 60)"
    by (simp add: check_time_fields_def)
  have "r mod 3600 div 60 * 60 + r mod 3600 mod 60 = r mod 3600" by simp
  then show "r div 3600 * 3600 + r mod 3600 div 60 * 60 + r mod 3600 mod 60 = r" by simp
qed

lemma from_seconds_correct:
  assumes "in_calendar T"
  shows "valid_datetime (from_seconds T) \<and> to_seconds (from_seconds T) = T"
proof -
  obtain y m d where o: "ord2ymd (T div 86400) = (y, m, d)" by (cases "ord2ymd (T div 86400)")
  from assms have "1 \<le> T div 86400" "T div 86400 \<le> MAXORDINAL"
    by (simp_all add: in_calendar_def MAXORDINAL_def) linarith+
  from ord2ymd_correct [OF this o] have ymd: "check_date_fields y m d" "ymd2ord y m d = T div 86400"
    by simp_all
  have r: "0 \<le> T mod 86400" "T mod 86400 < 86400" by simp_all
  from hms_of_seconds [OF r] ymd o show ?thesis
    by (simp add: from_seconds_def valid_datetime_def to_seconds_def toordinal_def)
qed

section \<open>Adding a timedelta\<close>

lemma in_calendar_div: "in_calendar T \<longleftrightarrow> 0 < T div 86400 \<and> T div 86400 \<le> MAXORDINAL"
proof -
  have T: "T = 86400 * (T div 86400) + T mod 86400" by simp
  have r: "0 \<le> T mod 86400" "T mod 86400 < 86400" by simp_all
  have 1: "86400 \<le> T \<longleftrightarrow> 0 < T div 86400" using T r by linarith
  have 2: "T < 3652060 * 86400 \<longleftrightarrow> T div 86400 \<le> 3652059" using T r by linarith
  show ?thesis unfolding in_calendar_def MAXORDINAL_def using 1 2 by simp
qed

lemma valid_to_seconds:
  assumes "valid_datetime t"
  shows "in_calendar (to_seconds t)"
proof -
  from assms have d: "check_date_fields (year t) (month t) (day t)"
    and h: "check_time_fields (hour t) (minute t) (second t)" by (simp_all add: valid_datetime_def)
  note r = time_of_day [OF h]
  have "to_seconds t = toordinal t * 86400 + (hour t * 3600 + minute t * 60 + second t)"
    by (simp add: to_seconds_def)
  with r have "to_seconds t div 86400 = toordinal t" by (simp add: split_seconds)
  with ymd2ord_range [OF d] show ?thesis by (simp add: in_calendar_div toordinal_def)
qed


lemma add_multiple:
  fixes q s :: int
  shows "(q * 86400 + s) div 86400 = q + s div 86400" "(q * 86400 + s) mod 86400 = s mod 86400"
  by simp_all


lemma dt_add_eq:
  assumes v: "valid_datetime t" and o: "0 \<le> seconds other" "seconds other < 86400"
  shows "dt_add t other =
     (if in_calendar (to_seconds t + days other * 86400 + seconds other)
      then Inr (from_seconds (to_seconds t + days other * 86400 + seconds other))
      else Inl OverflowError)"
proof -
  let ?T = "to_seconds t + days other * 86400 + seconds other"
  let ?s1 = "second t + seconds other + minute t * 60 + hour t * 3600"
  let ?d1 = "toordinal t + days other"
  let ?d2 = "?d1 + ?s1 div 86400"
  have T: "?T = ?d1 * 86400 + ?s1" by (simp add: to_seconds_def algebra_simps)
  have dv: "?T div 86400 = ?d2" unfolding T by (rule add_multiple(1))
  have md: "?T mod 86400 = ?s1 mod 86400" unfolding T by (rule add_multiple(2))
  have mk: "mk_timedelta ?d1 (second t + seconds other) (minute t) (hour t) 0 =
      (if abs ?d2 > 999999999 then Inl OverflowError
       else Inr \<lparr>days = ?d2, seconds = ?s1 mod 86400\<rparr>)"
    by (simp add: mk_timedelta_def Let_def)
  show ?thesis
  proof (cases "in_calendar ?T")
    case True
    then have r: "0 < ?d2" "?d2 \<le> MAXORDINAL"
      by (simp_all add: in_calendar_div dv)
    then have small: "\<not> abs ?d2 > 999999999" by (simp add: MAXORDINAL_def)
    have "dt_add t other = Inr (from_seconds ?T)"
      unfolding dt_add_def mk from_seconds_def dv md using small r
      by (simp add: Let_def split: prod.splits)
    with True show ?thesis by simp
  next
    case False
    then have n: "\<not> (0 < ?d2 \<and> ?d2 \<le> MAXORDINAL)" by (simp add: in_calendar_div dv)
    have "dt_add t other = Inl OverflowError"
    proof (cases "abs ?d2 > 999999999")
      case True
      then show ?thesis unfolding dt_add_def mk by simp
    next
      case False
      then show ?thesis unfolding dt_add_def mk using n by (auto simp: Let_def)
    qed
    with False show ?thesis by simp
  qed
qed


lemma unit_delta:
  "mk_timedelta 0 0 n 0 0 =
     (if abs (n * 60 div 86400) > 999999999 then Inl OverflowError
      else Inr \<lparr>days = n * 60 div 86400, seconds = n * 60 mod 86400\<rparr>)"
  "mk_timedelta 0 0 0 n 0 =
     (if abs (n * 3600 div 86400) > 999999999 then Inl OverflowError
      else Inr \<lparr>days = n * 3600 div 86400, seconds = n * 3600 mod 86400\<rparr>)"
  "mk_timedelta n 0 0 0 0 =
     (if abs (n * 86400 div 86400) > 999999999 then Inl OverflowError
      else Inr \<lparr>days = n * 86400 div 86400, seconds = n * 86400 mod 86400\<rparr>)"
  "mk_timedelta 0 0 0 0 n =
     (if abs (n * 604800 div 86400) > 999999999 then Inl OverflowError
      else Inr \<lparr>days = n * 604800 div 86400, seconds = n * 604800 mod 86400\<rparr>)"
proof -
  have w: "n * 604800 = n * 7 * 86400" by simp
  show "mk_timedelta 0 0 n 0 0 =
     (if abs (n * 60 div 86400) > 999999999 then Inl OverflowError
      else Inr \<lparr>days = n * 60 div 86400, seconds = n * 60 mod 86400\<rparr>)"
    by (simp add: mk_timedelta_def Let_def)
  show "mk_timedelta 0 0 0 n 0 =
     (if abs (n * 3600 div 86400) > 999999999 then Inl OverflowError
      else Inr \<lparr>days = n * 3600 div 86400, seconds = n * 3600 mod 86400\<rparr>)"
    by (simp add: mk_timedelta_def Let_def)
  show "mk_timedelta n 0 0 0 0 =
     (if abs (n * 86400 div 86400) > 999999999 then Inl OverflowError
      else Inr \<lparr>days = n * 86400 div 86400, seconds = n * 86400 mod 86400\<rparr>)"
    by (simp add: mk_timedelta_def Let_def)
  show "mk_timedelta 0 0 0 0 n =
     (if abs (n * 604800 div 86400) > 999999999 then Inl OverflowError
      else Inr \<lparr>days = n * 604800 div 86400, seconds = n * 604800 mod 86400\<rparr>)"
    unfolding w by (simp add: mk_timedelta_def Let_def mult.commute)
qed


lemma new_time_units:
  "new_time t (Some n) (Some ''minutes'') = add_units t (mk_timedelta 0 0 n 0 0)"
  "new_time t (Some n) (Some ''hours'') = add_units t (mk_timedelta 0 0 0 n 0)"
  "new_time t (Some n) (Some ''days'') = add_units t (mk_timedelta n 0 0 0 0)"
  "new_time t (Some n) (Some ''weeks'') = add_units t (mk_timedelta 0 0 0 0 n)"
  by (simp_all add: new_time_def)


lemma fixed_units_cases:
  assumes "(u, k) \<in> set fixed_units"
  shows "(u = ''minutes'' \<and> k = 60) \<or> (u = ''hours'' \<and> k = 3600) \<or>
         (u = ''days'' \<and> k = 86400) \<or> (u = ''weeks'' \<and> k = 604800)"
  using assms by (simp add: fixed_units_def)


lemma new_time_fixed_delta:
  assumes "(u, k) \<in> set fixed_units"
  shows "new_time t (Some n) (Some u) =
     add_units t (if abs (n * k div 86400) > 999999999 then Inl OverflowError
                  else Inr \<lparr>days = n * k div 86400, seconds = n * k mod 86400\<rparr>)"
proof -
  from fixed_units_cases [OF assms] consider
      "u = ''minutes''" "k = 60" | "u = ''hours''" "k = 3600"
    | "u = ''days''" "k = 86400" | "u = ''weeks''" "k = 604800" by blast
  then show ?thesis
  proof cases
    case 1
    then show ?thesis by (simp only: new_time_units unit_delta)
  next
    case 2
    then show ?thesis by (simp only: new_time_units unit_delta)
  next
    case 3
    then show ?thesis by (simp only: new_time_units unit_delta)
  next
    case 4
    then show ?thesis by (simp only: new_time_units unit_delta)
  qed
qed


lemma new_time_fixed:
  assumes v: "valid_datetime t" and u: "(u, k) \<in> set fixed_units"
  shows "new_time t (Some n) (Some u) =
     (if in_calendar (to_seconds t + n * k) then Inr (Some (from_seconds (to_seconds t + n * k)))
      else Inl OverflowError)"
proof (cases "abs (n * k div 86400) > 999999999")
  case True
  define X where "X = n * k"
  have X: "X = 86400 * (X div 86400) + X mod 86400" and r: "0 \<le> X mod 86400" "X mod 86400 < 86400"
    by simp_all
  from valid_to_seconds [OF v] have b: "86400 \<le> to_seconds t" "to_seconds t < 3652060 * 86400"
    by (simp_all add: in_calendar_def MAXORDINAL_def)
  from True have "999999999 < X div 86400 \<or> X div 86400 < - 999999999"
    unfolding X_def by linarith
  then have "\<not> in_calendar (to_seconds t + X)"
  proof
    assume "999999999 < X div 86400"
    with X r b have "3652060 * 86400 \<le> to_seconds t + X" by linarith
    then show ?thesis by (simp add: in_calendar_def MAXORDINAL_def)
  next
    assume "X div 86400 < - 999999999"
    with X r b have "to_seconds t + X < 86400" by linarith
    then show ?thesis by (simp add: in_calendar_def)
  qed
  with True show ?thesis by (simp add: new_time_fixed_delta [OF u] add_units_def X_def)
next
  case False
  let ?o = "\<lparr>days = n * k div 86400, seconds = n * k mod 86400\<rparr>"
  have o: "0 \<le> seconds ?o" "seconds ?o < 86400" by simp_all
  have e: "to_seconds t + days ?o * 86400 + seconds ?o = to_seconds t + n * k" by simp
  have d: "dt_add t ?o =
     (if in_calendar (to_seconds t + n * k) then Inr (from_seconds (to_seconds t + n * k))
      else Inl OverflowError)"
    using dt_add_eq [OF v o] by (simp only: e)
  show ?thesis
    unfolding new_time_fixed_delta [OF u] add_units_def using False d by simp
qed

lemma mk_datetime_valid: "mk_datetime y m d h mi s = Inr t \<Longrightarrow> valid_datetime t"
  by (auto simp: mk_datetime_def valid_datetime_def split: if_splits)

lemma strptime_valid: "strptime s = Inr t \<Longrightarrow> valid_datetime t"
  by (auto simp: strptime_def dest: mk_datetime_valid split: option.splits prod.splits)

lemma to_seconds_split:
  assumes "valid_datetime t"
  shows "to_seconds t = toordinal t * 86400 + (hour t * 3600 + minute t * 60 + second t)"
    and "0 \<le> hour t * 3600 + minute t * 60 + second t"
    and "hour t * 3600 + minute t * 60 + second t < 86400"
  using assms time_of_day [of "hour t" "minute t" "second t"]
  by (simp_all add: to_seconds_def valid_datetime_def)




lemma hms_roundtrip:
  fixes h mi s :: int
  assumes "check_time_fields h mi s"
  shows "(h * 3600 + mi * 60 + s) div 3600 = h"
    and "(h * 3600 + mi * 60 + s) mod 3600 div 60 = mi"
    and "(h * 3600 + mi * 60 + s) mod 3600 mod 60 = s"
proof -
  from assms have b: "0 \<le> mi" "mi \<le> 59" "0 \<le> s" "s \<le> 59"
    by (simp_all add: check_time_fields_def)
  have e1: "h * 3600 + mi * 60 + s = 3600 * h + (mi * 60 + s)" by simp
  from b have r1: "0 \<le> mi * 60 + s" "mi * 60 + s < 3600" by linarith+
  have e2: "mi * 60 + s = 60 * mi + s" by simp
  from b have r2: "0 \<le> s" "s < 60" by linarith+
  have m1: "(h * 3600 + mi * 60 + s) mod 3600 = mi * 60 + s" by (rule int_mod_pos_eq [OF e1 r1])
  show "(h * 3600 + mi * 60 + s) div 3600 = h" by (rule int_div_pos_eq [OF e1 r1])
  show "(h * 3600 + mi * 60 + s) mod 3600 div 60 = mi"
    unfolding m1 by (rule int_div_pos_eq [OF e2 r2])
  show "(h * 3600 + mi * 60 + s) mod 3600 mod 60 = s"
    unfolding m1 by (rule int_mod_pos_eq [OF e2 r2])
qed

lemma from_seconds_to_seconds:
  assumes v: "valid_datetime a"
  shows "from_seconds (to_seconds a) = a"
proof -
  note s = to_seconds_split [OF v]
  from v have d: "check_date_fields (year a) (month a) (day a)"
    and t: "check_time_fields (hour a) (minute a) (second a)" by (simp_all add: valid_datetime_def)
  have q: "to_seconds a div 86400 = toordinal a"
    "to_seconds a mod 86400 = hour a * 3600 + minute a * 60 + second a"
    unfolding s(1) using s(2,3) by (rule split_seconds)+
  have o: "ord2ymd (toordinal a) = (year a, month a, day a)"
    unfolding toordinal_def by (rule ord2ymd_ymd2ord [OF d])
  show ?thesis
    unfolding from_seconds_def q hms_roundtrip [OF t] o by simp
qed

lemma to_seconds_inj:
  assumes va: "valid_datetime a" and vb: "valid_datetime b" and eq: "to_seconds a = to_seconds b"
  shows "a = b"
proof -
  have "a = from_seconds (to_seconds a)" by (rule from_seconds_to_seconds [OF va, symmetric])
  also have "\<dots> = from_seconds (to_seconds b)" by (simp only: eq)
  also have "\<dots> = b" by (rule from_seconds_to_seconds [OF vb])
  finally show ?thesis .
qed



section \<open>Units of fixed duration\<close>

text \<open>
  C7. For every base time \<open>t\<close> and every interval \<open>n\<close> (so for every \<open>n \<ge> 1\<close>), the next
  time for the unit \<^verbatim>\<open>days\<close> is \<open>t\<close> plus \<open>n\<close> days, and likewise for \<^verbatim>\<open>minutes\<close>,
  \<^verbatim>\<open>hours\<close> and \<^verbatim>\<open>weeks\<close>: the code returns the datetime whose instant is the instant
  of \<open>t\<close> plus \<open>n\<close> times the length of the unit, whenever that instant is in the calendar,
  and raises OverflowError otherwise. A valid datetime is determined by its instant
  (\<open>to_seconds_inj\<close>).
\<close>

theorem fixed_units_add_exactly:
  assumes "valid_datetime t" and "(u, k) \<in> set fixed_units"
  shows "(in_calendar (to_seconds t + n * k) \<longrightarrow>
            (\<exists>t'. new_time t (Some n) (Some u) = Inr (Some t') \<and> valid_datetime t' \<and>
                  to_seconds t' = to_seconds t + n * k)) \<and>
         (\<not> in_calendar (to_seconds t + n * k) \<longrightarrow>
            new_time t (Some n) (Some u) = Inl OverflowError)"
proof (intro conjI impI)
  assume c: "in_calendar (to_seconds t + n * k)"
  with new_time_fixed [OF assms, of n]
  have "new_time t (Some n) (Some u) = Inr (Some (from_seconds (to_seconds t + n * k)))" by simp
  with from_seconds_correct [OF c]
  show "\<exists>t'. new_time t (Some n) (Some u) = Inr (Some t') \<and> valid_datetime t' \<and>
              to_seconds t' = to_seconds t + n * k" by blast
next
  assume "\<not> in_calendar (to_seconds t + n * k)"
  with new_time_fixed [OF assms, of n]
  show "new_time t (Some n) (Some u) = Inl OverflowError" by simp
qed

theorem fixed_units_add_exactly_witness:
  "valid_datetime clock \<and> (''days'', 86400) \<in> set fixed_units \<and>
   in_calendar (to_seconds clock + 1 * 86400) \<and>
   new_time clock (Some 1) (Some ''days'') =
     Inr (Some \<lparr>year = 2024, month = 3, day = 11, hour = 9, minute = 0, second = 0\<rparr>) \<and>
   to_seconds \<lparr>year = 2024, month = 3, day = 11, hour = 9, minute = 0, second = 0\<rparr> =
     to_seconds clock + 1 * 86400 \<and>
   valid_datetime end_of_calendar \<and> (''weeks'', 604800) \<in> set fixed_units \<and>
   \<not> in_calendar (to_seconds end_of_calendar + 3 * 604800) \<and>
   new_time end_of_calendar (Some 3) (Some ''weeks'') = Inl OverflowError"
proof -
  let ?x = "\<lparr>year = 2024, month = 3, day = 11, hour = 9, minute = 0, second = 0\<rparr>"
  have v: "valid_datetime clock"
    by code_simp
  have m: "(''days'', 86400) \<in> set fixed_units"
    by (simp add: fixed_units_def)
  have c: "in_calendar (to_seconds clock + 1 * 86400)"
    by code_simp
  have e: "new_time clock (Some 1) (Some ''days'') = Inr (Some ?x)"
    by code_simp
  from fixed_units_add_exactly [OF v m, of 1] c
  obtain t' where t': "new_time clock (Some 1) (Some ''days'') = Inr (Some t')"
      "to_seconds t' = to_seconds clock + 1 * 86400"
    by auto
  from t'(1) e have "t' = ?x" by simp
  with t'(2) have s: "to_seconds ?x = to_seconds clock + 1 * 86400" by simp
  have v2: "valid_datetime end_of_calendar"
    by code_simp
  have m2: "(''weeks'', 604800) \<in> set fixed_units"
    by (simp add: fixed_units_def)
  have n2: "\<not> in_calendar (to_seconds end_of_calendar + 3 * 604800)"
    by code_simp
  from fixed_units_add_exactly [OF v2 m2, of 3] n2
  have o: "new_time end_of_calendar (Some 3) (Some ''weeks'') = Inl OverflowError"
    by simp
  from v m c e s v2 m2 n2 o show ?thesis by simp
qed

section \<open>The next time is later\<close>



end
